theory Spec2Isabelle
  imports Main "HOL-Library.Word"
begin

unbundle bit_operations_syntax

section \<open>The xv6 file system layer (kernel/fs.c)\<close>

text \<open>
  A shallow embedding of \<^verbatim>\<open>fs.c\<close>: block allocator, inode cache, block mapping,
  content I/O, directories and path names. Every C function becomes a HOL function of
  the same name that takes the file-system state and returns either the way the kernel
  stops (\<open>Inl\<close>) or the C result together with the new state (\<open>Inr\<close>).

  Representation of C values:
  \<^item> \<^verbatim>\<open>uint\<close> values (block numbers, offsets, sizes, inode numbers) are natural numbers
    below \<open>2 ^ 32\<close>; where the C arithmetic can wrap, the wrap-around is written out
    with \<open>mod 2 ^ 32\<close>;
  \<^item> an \<^verbatim>\<open>int\<close> variable that can overflow (the block counter of \<^verbatim>\<open>balloc\<close>) is an \<open>int\<close>
    kept between \<open>- 2 ^ 31\<close> and \<open>2 ^ 31 - 1\<close>, wrapping as the x86 does;
  \<^item> \<^verbatim>\<open>short\<close> fields of an inode are 16-bit words, the flag word is a 32-bit word, the
    reference count is an \<open>int\<close>;
  \<^item> a disk block and every other byte array reached through a pointer is a function
    from the byte index to the byte;
  \<^item> a C string is a list of bytes; the end of the list stands for the terminating NUL,
    and a NUL inside the list terminates the string as well;
  \<^item> a \<^verbatim>\<open>struct inode *\<close> is the index of a slot of \<^verbatim>\<open>icache.inode\<close>.
\<close>

subsection \<open>State\<close>

type_synonym byte = "8 word"
type_synonym block = "nat \<Rightarrow> byte"

record inode =
  dev :: nat
  inum :: nat
  ref :: int
  flags :: "32 word"
  type :: "16 word"
  major :: "16 word"
  minor :: "16 word"
  nlink :: "16 word"
  size' :: nat
  addrs :: "nat \<Rightarrow> nat"

text \<open>
  The trace is a ghost field: it records, in order, the calls of \<^verbatim>\<open>itrunc\<close>, \<^verbatim>\<open>iupdate\<close>
  (with the type it writes) and \<^verbatim>\<open>wakeup\<close>, and the assignments to the reference count
  and to the flag word of a cached inode (with the value assigned), each with the inode
  slot concerned. No function reads it.
\<close>

datatype event = Itrunc nat | Iupdate nat "16 word" | Wakeup nat
  | Ref nat int | Flags nat "32 word"

record fs_state =
  icache :: "nat \<Rightarrow> inode"
  disk :: "nat \<times> nat \<Rightarrow> block"
  trace :: "event list"

text \<open>
  The ways the kernel stops instead of returning: \<^verbatim>\<open>panic\<close> with its message, a
  division by a constant that is zero, \<^verbatim>\<open>sleep\<close> on a busy inode (nothing else
  runs in this sequential model, so the sleeper is never woken), and a loop that never
  ends.
\<close>

datatype halt = Panic string | Trap | Sleeps | Diverges

subsection \<open>Constants declared in header files\<close>

text \<open>
  The header files (\<^verbatim>\<open>fs.h\<close>, \<^verbatim>\<open>param.h\<close>, \<^verbatim>\<open>stat.h\<close>, \<^verbatim>\<open>file.h\<close>) are not part of the
  sources at hand, so the constants they define are parameters of the model, and so are
  the byte layout of \<^verbatim>\<open>struct superblock\<close> and the device switch table \<^verbatim>\<open>devsw\<close>
  (an entry is \<open>None\<close> where the C table holds a null function pointer; a device
  routine is given the inode, the buffer and the length, and leaves the file-system
  state alone).
\<close>

record superblock =
  sb_size :: nat
  sb_ninodes :: nat

record config =
  BSIZE :: nat
  NDIRECT :: nat
  NINDIRECT :: nat
  DIRSIZ :: nat
  BPB :: nat
  IPB :: nat
  NINODE :: nat
  NDEV :: int
  T_DIR :: "16 word"
  T_DEV :: "16 word"
  I_BUSY :: "32 word"
  I_VALID :: "32 word"
  ROOTDEV :: nat
  ROOTINO :: nat
  sb_layout :: "block \<Rightarrow> superblock"
  devsw_read :: "nat \<Rightarrow> (inode \<Rightarrow> (nat \<Rightarrow> byte) \<Rightarrow> nat \<Rightarrow> int \<times> (nat \<Rightarrow> byte)) option"
  devsw_write :: "nat \<Rightarrow> (inode \<Rightarrow> (nat \<Rightarrow> byte) \<Rightarrow> nat \<Rightarrow> int) option"

text \<open>
  Modelled from the spec: the macros \<^verbatim>\<open>MAXFILE\<close>, \<^verbatim>\<open>IBLOCK\<close> and \<^verbatim>\<open>BBLOCK\<close> of \<^verbatim>\<open>fs.h\<close>.
  The maximum file size is the direct plus the indirect capacity; block 0 is the boot
  block, block 1 the superblock, the inode table starts at block 2 and the bitmap
  follows the inode table. \<^verbatim>\<open>BBLOCK\<close> is computed in \<^verbatim>\<open>uint\<close> arithmetic. \<^verbatim>\<open>BPB\<close> is an
  \<^verbatim>\<open>int\<close> constant, so where \<^verbatim>\<open>balloc\<close> applies the macro to its \<^verbatim>\<open>int\<close> counter the
  division is the signed one of C, which truncates towards zero, and its result is
  converted to \<^verbatim>\<open>uint\<close> by the addition (\<open>BBLOCK_int\<close>).
\<close>

definition MAXFILE :: "config \<Rightarrow> nat" where
  "MAXFILE cfg = NDIRECT cfg + NINDIRECT cfg"

definition IBLOCK :: "config \<Rightarrow> nat \<Rightarrow> nat" where
  "IBLOCK cfg i = i div IPB cfg + 2"

definition BBLOCK :: "config \<Rightarrow> nat \<Rightarrow> nat \<Rightarrow> nat" where
  "BBLOCK cfg b ninodes = (b div BPB cfg + ninodes div IPB cfg + 3) mod 2 ^ 32"

definition to_uint :: "int \<Rightarrow> nat" where
  "to_uint x = nat (x mod 2 ^ 32)"

definition wrap_int :: "int \<Rightarrow> int" where
  "wrap_int x = (x + 2 ^ 31) mod 2 ^ 32 - 2 ^ 31"

definition cdiv :: "int \<Rightarrow> int \<Rightarrow> int" where
  "cdiv a b = (if a < 0 then - ((- a) div b) else a div b)"

definition BBLOCK_int :: "config \<Rightarrow> int \<Rightarrow> nat \<Rightarrow> nat" where
  "BBLOCK_int cfg b ninodes =
     (to_uint (cdiv b (int (BPB cfg))) + ninodes div IPB cfg + 3) mod 2 ^ 32"

subsection \<open>The buffer cache\<close>

text \<open>
  Modelled from the spec: \<^verbatim>\<open>bread\<close>, \<^verbatim>\<open>bwrite\<close> and \<^verbatim>\<open>brelse\<close> of the cached-block
  collaborator (\<^verbatim>\<open>bio.c\<close>). \<^verbatim>\<open>bread\<close> gives the content of a block, \<^verbatim>\<open>bwrite\<close> stores
  it (write-through), \<^verbatim>\<open>brelse\<close> has no effect on the content.
\<close>

definition bread :: "fs_state \<Rightarrow> nat \<Rightarrow> nat \<Rightarrow> block" where
  "bread st d bno = disk st (d, bno)"

definition bwrite :: "fs_state \<Rightarrow> nat \<Rightarrow> nat \<Rightarrow> block \<Rightarrow> fs_state" where
  "bwrite st d bno data = st\<lparr>disk := (disk st)((d, bno) := data)\<rparr>"

definition readsb :: "config \<Rightarrow> fs_state \<Rightarrow> nat \<Rightarrow> superblock" where
  "readsb cfg st d = sb_layout cfg (bread st d 1)"

definition bzero :: "config \<Rightarrow> fs_state \<Rightarrow> nat \<Rightarrow> nat \<Rightarrow> fs_state" where
  "bzero cfg st d bno =
     bwrite st d bno (\<lambda>k. if k < BSIZE cfg then 0 else bread st d bno k)"

subsection \<open>Little-endian integers in a byte array\<close>

text \<open>
  The kernel reads a block as an array of \<^verbatim>\<open>uint\<close> or as a C struct by a pointer cast; on
  the x86 this is the little-endian reading of the bytes.
\<close>

fun get_le :: "nat \<Rightarrow> block \<Rightarrow> nat \<Rightarrow> nat" where
  "get_le 0 data p = 0"
| "get_le (Suc w) data p = unat (data p) + 256 * get_le w data (Suc p)"

fun put_le :: "nat \<Rightarrow> nat \<Rightarrow> block \<Rightarrow> nat \<Rightarrow> block" where
  "put_le 0 v data p = data"
| "put_le (Suc w) v data p = put_le w (v div 256) (data(p := of_nat v)) (Suc p)"

subsection \<open>Blocks\<close>

function balloc_bits :: "nat \<Rightarrow> block \<Rightarrow> nat \<Rightarrow> nat option" where
  "balloc_bits bpb data bi =
     (if bi < bpb then
        (if data (bi div 8) AND push_bit (bi mod 8) 1 = 0 then Some bi
         else balloc_bits bpb data (Suc bi))
      else None)"
  by pat_completeness auto
termination
  by (relation "measure (\<lambda>(bpb, data, bi). bpb - bi)") auto

declare balloc_bits.simps [simp del]

text \<open>
  The outer loop of \<^verbatim>\<open>balloc\<close>. Its counter \<^verbatim>\<open>b\<close> is an \<^verbatim>\<open>int\<close>: the test against the
  \<^verbatim>\<open>uint\<close> size converts it to \<^verbatim>\<open>uint\<close>, and so does the \<^verbatim>\<open>return\<close>. On a device of more
  than \<open>2 ^ 31\<close> blocks the counter wraps to a negative number, and on a full device of
  more than \<open>2 ^ 32 - BPB\<close> blocks the loop never ends: the result is then \<open>None\<close>, which
  \<^verbatim>\<open>balloc\<close> reports as \<open>Diverges\<close>.
\<close>

partial_function (option) balloc_scan :: "config \<Rightarrow> fs_state \<Rightarrow> nat \<Rightarrow> superblock \<Rightarrow> int \<Rightarrow> (halt + nat \<times> fs_state) option" where
  "balloc_scan cfg st d sb b =
     (if to_uint b < sb_size sb then
        (if BPB cfg = 0 \<or> IPB cfg = 0 then Some (Inl Trap)
         else
           let bno = BBLOCK_int cfg b (sb_ninodes sb); data = bread st d bno in
           case balloc_bits (BPB cfg) data 0 of
             Some bi \<Rightarrow>
               Some (Inr (to_uint (b + int bi),
                    bwrite st d bno
                      (data(bi div 8 := data (bi div 8) OR push_bit (bi mod 8) 1))))
           | None \<Rightarrow> balloc_scan cfg st d sb (wrap_int (b + int (BPB cfg))))
      else Some (Inl (Panic ''balloc: out of blocks'')))"

definition balloc :: "config \<Rightarrow> fs_state \<Rightarrow> nat \<Rightarrow> halt + nat \<times> fs_state" where
  "balloc cfg st d =
     (case balloc_scan cfg st d (readsb cfg st d) 0 of
        None \<Rightarrow> Inl Diverges
      | Some r \<Rightarrow> r)"

definition bfree :: "config \<Rightarrow> fs_state \<Rightarrow> nat \<Rightarrow> nat \<Rightarrow> halt + fs_state" where
  "bfree cfg st d b =
     (let st1 = bzero cfg st d b; sb = readsb cfg st1 d in
      if BPB cfg = 0 \<or> IPB cfg = 0 then Inl Trap
      else
        let bno = BBLOCK cfg b (sb_ninodes sb); data = bread st1 d bno;
            bi = b mod BPB cfg; m = push_bit (bi mod 8) 1 in
        if data (bi div 8) AND m = 0 then Inl (Panic ''freeing free block'')
        else Inr (bwrite st1 d bno (data(bi div 8 := data (bi div 8) AND NOT m))))"

subsection \<open>Inode contents\<close>

definition set_addr :: "fs_state \<Rightarrow> nat \<Rightarrow> nat \<Rightarrow> nat \<Rightarrow> fs_state" where
  "set_addr st ip k a =
     st\<lparr>icache := (icache st)(ip := (icache st ip)\<lparr>addrs := (addrs (icache st ip))(k := a)\<rparr>)\<rparr>"

definition bmap_slot :: "config \<Rightarrow> fs_state \<Rightarrow> nat \<Rightarrow> nat \<Rightarrow> halt + nat \<times> fs_state" where
  "bmap_slot cfg st ip k =
     (let addr = addrs (icache st ip) k in
      if addr = 0 then
        (case balloc cfg st (dev (icache st ip)) of
           Inl e \<Rightarrow> Inl e
         | Inr (a, st1) \<Rightarrow> Inr (a, set_addr st1 ip k a))
      else Inr (addr, st))"

definition bmap :: "config \<Rightarrow> fs_state \<Rightarrow> nat \<Rightarrow> nat \<Rightarrow> halt + nat \<times> fs_state" where
  "bmap cfg st ip bn =
     (if bn < NDIRECT cfg then bmap_slot cfg st ip bn
      else
        let bn1 = bn - NDIRECT cfg in
        if bn1 < NINDIRECT cfg then
          (case bmap_slot cfg st ip (NDIRECT cfg) of
             Inl e \<Rightarrow> Inl e
           | Inr (ind, st1) \<Rightarrow>
               let d = dev (icache st1 ip); data = bread st1 d ind;
                   addr = get_le 4 data (4 * bn1) in
               if addr = 0 then
                 (case balloc cfg st1 d of
                    Inl e \<Rightarrow> Inl e
                  | Inr (a, st2) \<Rightarrow>
                      Inr (a, bwrite st2 d ind (put_le 4 a data (4 * bn1))))
               else Inr (addr, st1))
        else Inl (Panic ''bmap: out of range''))"


subsection \<open>Inodes\<close>

text \<open>
  Modelled from the spec: the layout of \<^verbatim>\<open>struct dinode\<close> (\<^verbatim>\<open>fs.h\<close>): type, major, minor
  and link count (two bytes each), the size and \<open>NDIRECT + 1\<close> block addresses (four
  bytes each), in this order.
\<close>

definition dinode_bytes :: "config \<Rightarrow> nat" where
  "dinode_bytes cfg = 12 + 4 * (NDIRECT cfg + 1)"

fun put_addrs :: "nat \<Rightarrow> (nat \<Rightarrow> nat) \<Rightarrow> block \<Rightarrow> nat \<Rightarrow> block" where
  "put_addrs 0 a data p = data"
| "put_addrs (Suc n) a data p = put_le 4 (a n) (put_addrs n a data p) (p + 4 * n)"

definition upd_inode :: "fs_state \<Rightarrow> nat \<Rightarrow> (inode \<Rightarrow> inode) \<Rightarrow> fs_state" where
  "upd_inode st ip f = st\<lparr>icache := (icache st)(ip := f (icache st ip))\<rparr>"

definition wakeup :: "fs_state \<Rightarrow> nat \<Rightarrow> fs_state" where
  "wakeup st ip = st\<lparr>trace := trace st @ [Wakeup ip]\<rparr>"

text \<open>The assignments \<^verbatim>\<open>ip->ref = r\<close> and \<^verbatim>\<open>ip->flags = w\<close>, with their entry in the trace.\<close>

definition set_ref :: "fs_state \<Rightarrow> nat \<Rightarrow> int \<Rightarrow> fs_state" where
  "set_ref st ip r = (upd_inode st ip (\<lambda>i. i\<lparr>ref := r\<rparr>))\<lparr>trace := trace st @ [Ref ip r]\<rparr>"

definition set_flags :: "fs_state \<Rightarrow> nat \<Rightarrow> 32 word \<Rightarrow> fs_state" where
  "set_flags st ip w = (upd_inode st ip (\<lambda>i. i\<lparr>flags := w\<rparr>))\<lparr>trace := trace st @ [Flags ip w]\<rparr>"

definition iupdate :: "config \<Rightarrow> fs_state \<Rightarrow> nat \<Rightarrow> halt + fs_state" where
  "iupdate cfg st0 ip =
     (let i = icache st0 ip; st = st0\<lparr>trace := trace st0 @ [Iupdate ip (type i)]\<rparr> in
      if IPB cfg = 0 then Inl Trap
      else
        let bno = IBLOCK cfg (inum i); data = bread st (dev i) bno;
            p = (inum i mod IPB cfg) * dinode_bytes cfg;
            data1 = put_le 2 (unat (type i)) data p;
            data2 = put_le 2 (unat (major i)) data1 (p + 2);
            data3 = put_le 2 (unat (minor i)) data2 (p + 4);
            data4 = put_le 2 (unat (nlink i)) data3 (p + 6);
            data5 = put_le 4 (size' i) data4 (p + 8);
            data6 = put_addrs (NDIRECT cfg + 1) (addrs i) data5 (p + 12)
        in Inr (bwrite st (dev i) bno data6))"

function iget_scan :: "config \<Rightarrow> fs_state \<Rightarrow> nat \<Rightarrow> nat \<Rightarrow> nat \<Rightarrow> nat option \<Rightarrow> halt + nat \<times> fs_state" where
  "iget_scan cfg st d n k emp =
     (if k < NINODE cfg then
        (if ref (icache st k) > 0 \<and> dev (icache st k) = d \<and> inum (icache st k) = n then
           Inr (k, set_ref st k (ref (icache st k) + 1))
         else
           iget_scan cfg st d n (Suc k)
             (if emp = None \<and> ref (icache st k) = 0 then Some k else emp))
      else
        (case emp of
           None \<Rightarrow> Inl (Panic ''iget: no inodes'')
         | Some e \<Rightarrow>
             Inr (e, set_flags (set_ref (upd_inode st e (\<lambda>i. i\<lparr>dev := d, inum := n\<rparr>)) e 1) e 0)))"
  by pat_completeness auto
termination
  by (relation "measure (\<lambda>(cfg, st, d, n, k, emp). NINODE cfg - k)") auto

declare iget_scan.simps [simp del]

definition iget :: "config \<Rightarrow> fs_state \<Rightarrow> nat \<Rightarrow> nat \<Rightarrow> halt + nat \<times> fs_state" where
  "iget cfg st d n = iget_scan cfg st d n 0 None"

definition idup :: "fs_state \<Rightarrow> nat \<Rightarrow> nat \<times> fs_state" where
  "idup st ip = (ip, set_ref st ip (ref (icache st ip) + 1))"

text \<open>
  An inode pointer of the model is always a slot of the cache, so the null-pointer
  tests of \<^verbatim>\<open>ilock\<close> and \<^verbatim>\<open>iunlock\<close> have no counterpart.
\<close>

definition ilock :: "config \<Rightarrow> fs_state \<Rightarrow> nat \<Rightarrow> halt + fs_state" where
  "ilock cfg st ip =
     (if ref (icache st ip) < 1 then Inl (Panic ''ilock'')
      else if flags (icache st ip) AND I_BUSY cfg \<noteq> 0 then Inl Sleeps
      else
        let st1 = set_flags st ip (flags (icache st ip) OR I_BUSY cfg);
            i = icache st1 ip in
        if flags i AND I_VALID cfg = 0 then
          (if IPB cfg = 0 then Inl Trap
           else
             let data = bread st1 (dev i) (IBLOCK cfg (inum i));
                 p = (inum i mod IPB cfg) * dinode_bytes cfg;
                 st2 = set_flags (upd_inode st1 ip (\<lambda>i. i\<lparr>
                   type := of_nat (get_le 2 data p),
                   major := of_nat (get_le 2 data (p + 2)),
                   minor := of_nat (get_le 2 data (p + 4)),
                   nlink := of_nat (get_le 2 data (p + 6)),
                   size' := get_le 4 data (p + 8),
                   addrs := (\<lambda>k. if k \<le> NDIRECT cfg then get_le 4 data (p + 12 + 4 * k)
                                  else addrs i k)\<rparr>)) ip (flags i OR I_VALID cfg)
             in if type (icache st2 ip) = 0 then Inl (Panic ''ilock: no type'')
                else Inr st2)
        else Inr st1)"

definition iunlock :: "config \<Rightarrow> fs_state \<Rightarrow> nat \<Rightarrow> halt + fs_state" where
  "iunlock cfg st ip =
     (if flags (icache st ip) AND I_BUSY cfg = 0 \<or> ref (icache st ip) < 1
      then Inl (Panic ''iunlock'')
      else Inr (wakeup (set_flags st ip (flags (icache st ip) AND NOT (I_BUSY cfg))) ip))"

function itrunc_direct :: "config \<Rightarrow> fs_state \<Rightarrow> nat \<Rightarrow> nat \<Rightarrow> halt + fs_state" where
  "itrunc_direct cfg st ip k =
     (if k < NDIRECT cfg then
        (if addrs (icache st ip) k \<noteq> 0 then
           (case bfree cfg st (dev (icache st ip)) (addrs (icache st ip) k) of
              Inl e \<Rightarrow> Inl e
            | Inr st1 \<Rightarrow> itrunc_direct cfg (set_addr st1 ip k 0) ip (Suc k))
         else itrunc_direct cfg st ip (Suc k))
      else Inr st)"
  by pat_completeness auto
termination
  by (relation "measure (\<lambda>(cfg, st, ip, k). NDIRECT cfg - k)") auto

declare itrunc_direct.simps [simp del]

function itrunc_indirect :: "config \<Rightarrow> fs_state \<Rightarrow> nat \<Rightarrow> block \<Rightarrow> nat \<Rightarrow> halt + fs_state" where
  "itrunc_indirect cfg st d a j =
     (if j < NINDIRECT cfg then
        (if get_le 4 a (4 * j) \<noteq> 0 then
           (case bfree cfg st d (get_le 4 a (4 * j)) of
              Inl e \<Rightarrow> Inl e
            | Inr st1 \<Rightarrow> itrunc_indirect cfg st1 d a (Suc j))
         else itrunc_indirect cfg st d a (Suc j))
      else Inr st)"
  by pat_completeness auto
termination
  by (relation "measure (\<lambda>(cfg, st, d, a, j). NINDIRECT cfg - j)") auto

declare itrunc_indirect.simps [simp del]

definition itrunc :: "config \<Rightarrow> fs_state \<Rightarrow> nat \<Rightarrow> halt + fs_state" where
  "itrunc cfg st0 ip =
     (let st = st0\<lparr>trace := trace st0 @ [Itrunc ip]\<rparr> in
      case itrunc_direct cfg st ip 0 of
        Inl e \<Rightarrow> Inl e
      | Inr st1 \<Rightarrow>
          (case
             (if addrs (icache st1 ip) (NDIRECT cfg) \<noteq> 0 then
                let d = dev (icache st1 ip); ind = addrs (icache st1 ip) (NDIRECT cfg) in
                case itrunc_indirect cfg st1 d (bread st1 d ind) 0 of
                  Inl e \<Rightarrow> Inl e
                | Inr st2 \<Rightarrow>
                    (case bfree cfg st2 d ind of
                       Inl e \<Rightarrow> Inl e
                     | Inr st3 \<Rightarrow> Inr (set_addr st3 ip (NDIRECT cfg) 0))
              else Inr st1)
           of
             Inl e \<Rightarrow> Inl e
           | Inr st4 \<Rightarrow> iupdate cfg (upd_inode st4 ip (\<lambda>i. i\<lparr>size' := 0\<rparr>)) ip))"

definition iput :: "config \<Rightarrow> fs_state \<Rightarrow> nat \<Rightarrow> halt + fs_state" where
  "iput cfg st ip =
     (if ref (icache st ip) = 1 \<and> flags (icache st ip) AND I_VALID cfg \<noteq> 0
         \<and> nlink (icache st ip) = 0 then
        (if flags (icache st ip) AND I_BUSY cfg \<noteq> 0 then Inl (Panic ''iput busy'')
         else
           case itrunc cfg (set_flags st ip (flags (icache st ip) OR I_BUSY cfg)) ip of
             Inl e \<Rightarrow> Inl e
           | Inr st1 \<Rightarrow>
               (case iupdate cfg (upd_inode st1 ip (\<lambda>i. i\<lparr>type := 0\<rparr>)) ip of
                  Inl e \<Rightarrow> Inl e
                | Inr st2 \<Rightarrow>
                    (let st3 = wakeup (set_flags st2 ip 0) ip
                     in Inr (set_ref st3 ip (ref (icache st3 ip) - 1)))))
      else Inr (set_ref st ip (ref (icache st ip) - 1)))"

definition iunlockput :: "config \<Rightarrow> fs_state \<Rightarrow> nat \<Rightarrow> halt + fs_state" where
  "iunlockput cfg st ip =
     (case iunlock cfg st ip of Inl e \<Rightarrow> Inl e | Inr st1 \<Rightarrow> iput cfg st1 ip)"

subsection \<open>Content I/O\<close>

lemma balloc_scan_result:
  assumes "balloc_scan cfg st d sb b = Some y"
  shows "case y of
      Inl e \<Rightarrow> 0 < BPB cfg \<and> 0 < IPB cfg \<longrightarrow> e = Panic ''balloc: out of blocks''
    | Inr (a, st') \<Rightarrow> icache st' = icache st \<and> trace st' = trace st"
proof (rule balloc_scan.raw_induct [OF _ assms])
  fix f cfg st d sb b y
  assume "\<And>cfg st d sb b y. f cfg st d sb b = Some y \<Longrightarrow>
            (case y of
               Inl e \<Rightarrow> 0 < BPB cfg \<and> 0 < IPB cfg \<longrightarrow> e = Panic ''balloc: out of blocks''
             | Inr (a, st') \<Rightarrow> icache st' = icache st \<and> trace st' = trace st)"
    and "(if to_uint b < sb_size sb then
        (if BPB cfg = 0 \<or> IPB cfg = 0 then Some (Inl Trap)
         else
           let bno = BBLOCK_int cfg b (sb_ninodes sb); data = bread st d bno in
           case balloc_bits (BPB cfg) data 0 of
             Some bi \<Rightarrow>
               Some (Inr (to_uint (b + int bi),
                    bwrite st d bno
                      (data(bi div 8 := data (bi div 8) OR push_bit (bi mod 8) 1))))
           | None \<Rightarrow> f cfg st d sb (wrap_int (b + int (BPB cfg))))
      else Some (Inl (Panic ''balloc: out of blocks''))) = Some y"
  then show "case y of
      Inl e \<Rightarrow> 0 < BPB cfg \<and> 0 < IPB cfg \<longrightarrow> e = Panic ''balloc: out of blocks''
    | Inr (a, st') \<Rightarrow> icache st' = icache st \<and> trace st' = trace st"
    by (auto simp: Let_def bwrite_def split: if_splits option.splits)
qed

lemma balloc_icache: "balloc cfg st d = Inr (a, st') \<Longrightarrow> icache st' = icache st"
  using balloc_scan_result [of cfg st d "readsb cfg st d" 0]
  by (auto simp: balloc_def split: option.splits)

lemma bwrite_icache [simp]: "icache (bwrite st d bno data) = icache st"
  by (simp add: bwrite_def)

lemma bmap_slot_icache:
  assumes "bmap_slot cfg st ip k = Inr (a, st')"
  shows "\<exists>ad. icache st' = (icache st)(ip := (icache st ip)\<lparr>addrs := ad\<rparr>)"
proof (cases "addrs (icache st ip) k = 0")
  case False
  with assms have "st' = st" by (simp add: bmap_slot_def Let_def)
  then have "icache st' = (icache st)(ip := (icache st ip)\<lparr>addrs := addrs (icache st ip)\<rparr>)"
    by simp
  then show ?thesis by (rule exI [of _ "addrs (icache st ip)"])
next
  case True
  with assms obtain st1 where b: "balloc cfg st (dev (icache st ip)) = Inr (a, st1)"
    and s: "st' = set_addr st1 ip k a"
    by (auto simp: bmap_slot_def Let_def split: sum.splits)
  from balloc_icache [OF b] s
  have "icache st' = (icache st)(ip := (icache st ip)\<lparr>addrs := (addrs (icache st ip))(k := a)\<rparr>)"
    by (simp add: set_addr_def)
  then show ?thesis by (rule exI [of _ "(addrs (icache st ip))(k := a)"])
qed

lemma bmap_indirect_icache:
  assumes "bmap cfg st ip bn = Inr (a, st')" and "\<not> bn < NDIRECT cfg"
  obtains ind st1 where "bmap_slot cfg st ip (NDIRECT cfg) = Inr (ind, st1)"
    and "icache st' = icache st1"
proof (cases "bmap_slot cfg st ip (NDIRECT cfg)")
  case (Inl e)
  with assms show ?thesis by (simp add: bmap_def Let_def split: if_splits)
next
  case (Inr r)
  obtain ind st1 where r: "r = (ind, st1)" by (cases r)
  let ?d = "dev (icache st1 ip)"
  show ?thesis
  proof (cases "get_le 4 (bread st1 ?d ind) (4 * (bn - NDIRECT cfg)) = 0")
    case False
    with assms Inr r have "st' = st1" by (simp add: bmap_def Let_def split: if_splits)
    with Inr r that show ?thesis by simp
  next
    case True
    with assms Inr r obtain st2 where "balloc cfg st1 ?d = Inr (a, st2)"
      and "st' = bwrite st2 ?d ind (put_le 4 a (bread st1 ?d ind) (4 * (bn - NDIRECT cfg)))"
      by (auto simp: bmap_def Let_def split: if_splits sum.splits)
    with balloc_icache [of cfg st1 ?d a st2] have "icache st' = icache st1" by simp
    with Inr r that show ?thesis by simp
  qed
qed

lemma bmap_icache:
  assumes "bmap cfg st ip bn = Inr (a, st')"
  shows "\<exists>ad. icache st' = (icache st)(ip := (icache st ip)\<lparr>addrs := ad\<rparr>)"
proof (cases "bn < NDIRECT cfg")
  case True
  with assms have "bmap_slot cfg st ip bn = Inr (a, st')" by (simp add: bmap_def)
  then show ?thesis by (rule bmap_slot_icache)
next
  case False
  from bmap_indirect_icache [OF assms False] obtain ind st1
    where s: "bmap_slot cfg st ip (NDIRECT cfg) = Inr (ind, st1)"
    and i: "icache st' = icache st1" by blast
  from bmap_slot_icache [OF s] show ?thesis unfolding i .
qed

lemma bmap_size: 
  assumes "bmap cfg st ip bn = Inr (a, st')" 
  shows "size' (icache st' k) = size' (icache st k)"
proof -
  from bmap_icache [OF assms] obtain ad
    where "icache st' = (icache st)(ip := (icache st ip)\<lparr>addrs := ad\<rparr>)" ..
  then show ?thesis by simp
qed

lemma chunk_progress:
  assumes "tot < n" and "0 < (B::nat)"
  shows "n - (tot + min (n - tot) (B - off mod B)) < n - tot"
proof -
  define r where "r = off mod B"
  from assms(2) have "r < B" by (simp add: r_def)
  with assms(1) have "0 < min (n - tot) (B - r)" by simp
  with assms(1) have "n - (tot + min (n - tot) (B - r)) < n - tot" by linarith
  then show ?thesis by (simp add: r_def)
qed

text \<open>The conversion of a \<^verbatim>\<open>uint\<close> to the \<^verbatim>\<open>int\<close> a function returns.\<close>

definition to_int :: "nat \<Rightarrow> int" where
  "to_int n = (if n mod 2 ^ 32 < 2 ^ 31 then int (n mod 2 ^ 32) else int (n mod 2 ^ 32) - 2 ^ 32)"

function readi_loop :: "config \<Rightarrow> fs_state \<Rightarrow> nat \<Rightarrow> (nat \<Rightarrow> byte) \<Rightarrow> nat \<Rightarrow> nat \<Rightarrow> nat \<Rightarrow> halt + (nat \<Rightarrow> byte) \<times> fs_state" where
  "readi_loop cfg st ip dst off n tot =
     (if tot < n then
        (if BSIZE cfg = 0 then Inl Trap
         else
           case bmap cfg st ip (off div BSIZE cfg) of
             Inl e \<Rightarrow> Inl e
           | Inr (a, st1) \<Rightarrow>
               let data = bread st1 (dev (icache st1 ip)) a;
                   m = min (n - tot) (BSIZE cfg - off mod BSIZE cfg)
               in readi_loop cfg st1 ip
                    (\<lambda>k. if tot \<le> k \<and> k < tot + m then data (off mod BSIZE cfg + (k - tot))
                         else dst k)
                    ((off + m) mod 2 ^ 32) n (tot + m))
      else Inr (dst, st))"
  by pat_completeness auto
termination
  by (relation "measure (\<lambda>(cfg, st, ip, dst, off, n, tot). n - tot)")
     (simp_all add: chunk_progress)

declare readi_loop.simps [simp del]

definition readi :: "config \<Rightarrow> fs_state \<Rightarrow> nat \<Rightarrow> (nat \<Rightarrow> byte) \<Rightarrow> nat \<Rightarrow> nat \<Rightarrow> halt + int \<times> (nat \<Rightarrow> byte) \<times> fs_state" where
  "readi cfg st ip dst off n =
     (let i = icache st ip in
      if type i = T_DEV cfg then
        (if sint (major i) < 0 \<or> sint (major i) \<ge> NDEV cfg then Inr (- 1, dst, st)
         else
           case devsw_read cfg (nat (sint (major i))) of
             None \<Rightarrow> Inr (- 1, dst, st)
           | Some rd \<Rightarrow> Inr (fst (rd i dst n), snd (rd i dst n), st))
      else if off > size' i \<or> (off + n) mod 2 ^ 32 < off then Inr (- 1, dst, st)
      else
        let n1 = (if (off + n) mod 2 ^ 32 > size' i then size' i - off else n) in
        case readi_loop cfg st ip dst off n1 0 of
          Inl e \<Rightarrow> Inl e
        | Inr (dst1, st1) \<Rightarrow> Inr (to_int n1, dst1, st1))"

function writei_loop :: "config \<Rightarrow> fs_state \<Rightarrow> nat \<Rightarrow> (nat \<Rightarrow> byte) \<Rightarrow> nat \<Rightarrow> nat \<Rightarrow> nat \<Rightarrow> halt + nat \<times> fs_state" where
  "writei_loop cfg st ip src off n tot =
     (if tot < n then
        (if BSIZE cfg = 0 then Inl Trap
         else
           case bmap cfg st ip (off div BSIZE cfg) of
             Inl e \<Rightarrow> Inl e
           | Inr (a, st1) \<Rightarrow>
               let d = dev (icache st1 ip); data = bread st1 d a;
                   m = min (n - tot) (BSIZE cfg - off mod BSIZE cfg);
                   data1 = (\<lambda>k. if off mod BSIZE cfg \<le> k \<and> k < off mod BSIZE cfg + m
                                 then src (tot + (k - off mod BSIZE cfg)) else data k)
               in writei_loop cfg (bwrite st1 d a data1) ip src ((off + m) mod 2 ^ 32) n (tot + m))
      else Inr (off, st))"
  by pat_completeness auto
termination
  by (relation "measure (\<lambda>(cfg, st, ip, src, off, n, tot). n - tot)")
     (simp_all add: chunk_progress)

declare writei_loop.simps [simp del]

definition writei :: "config \<Rightarrow> fs_state \<Rightarrow> nat \<Rightarrow> (nat \<Rightarrow> byte) \<Rightarrow> nat \<Rightarrow> nat \<Rightarrow> halt + int \<times> fs_state" where
  "writei cfg st ip src off n =
     (let i = icache st ip in
      if type i = T_DEV cfg then
        (if sint (major i) < 0 \<or> sint (major i) \<ge> NDEV cfg then Inr (- 1, st)
         else
           case devsw_write cfg (nat (sint (major i))) of
             None \<Rightarrow> Inr (- 1, st)
           | Some wr \<Rightarrow> Inr (wr i src n, st))
      else if off > size' i \<or> (off + n) mod 2 ^ 32 < off then Inr (- 1, st)
      else
        let maxbytes = (MAXFILE cfg * BSIZE cfg) mod 2 ^ 32;
            n1 = (if (off + n) mod 2 ^ 32 > maxbytes then (maxbytes + 2 ^ 32 - off) mod 2 ^ 32
                  else n)
        in
        case writei_loop cfg st ip src off n1 0 of
          Inl e \<Rightarrow> Inl e
        | Inr (off1, st1) \<Rightarrow>
            if n1 > 0 \<and> off1 > size' (icache st1 ip) then
              (case iupdate cfg (upd_inode st1 ip (\<lambda>i. i\<lparr>size' := off1\<rparr>)) ip of
                 Inl e \<Rightarrow> Inl e
               | Inr st2 \<Rightarrow> Inr (to_int n1, st2))
            else Inr (to_int n1, st1))"

subsection \<open>Directories\<close>

text \<open>
  Modelled from the spec: \<^verbatim>\<open>strncmp\<close> and \<^verbatim>\<open>strncpy\<close> of \<^verbatim>\<open>string.c\<close>, which is not part of
  the sources at hand. Names are compared over the width of the name field, the
  comparison stopping at a NUL; a name is copied into the field and padded with NULs.
  Both arguments are pointers: \<open>p 0\<close> is the byte pointed to, \<open>p \<circ> Suc\<close> the pointer
  advanced by one.
\<close>

fun strncmp :: "(nat \<Rightarrow> byte) \<Rightarrow> (nat \<Rightarrow> byte) \<Rightarrow> nat \<Rightarrow> int" where
  "strncmp p q 0 = 0"
| "strncmp p q (Suc n) =
     (if p 0 \<noteq> 0 \<and> p 0 = q 0 then strncmp (p \<circ> Suc) (q \<circ> Suc) n
      else uint (p 0) - uint (q 0))"

fun strncpy :: "(nat \<Rightarrow> byte) \<Rightarrow> (nat \<Rightarrow> byte) \<Rightarrow> nat \<Rightarrow> (nat \<Rightarrow> byte)" where
  "strncpy s t 0 = s"
| "strncpy s t (Suc n) =
     (if t 0 \<noteq> 0 then (\<lambda>k. if k = 0 then t 0 else strncpy (s \<circ> Suc) (t \<circ> Suc) n (k - 1))
      else (\<lambda>k. if k < Suc n then 0 else s k))"

definition namecmp :: "config \<Rightarrow> (nat \<Rightarrow> byte) \<Rightarrow> (nat \<Rightarrow> byte) \<Rightarrow> int" where
  "namecmp cfg s t = strncmp s t (DIRSIZ cfg)"

text \<open>
  Modelled from the spec: the layout of \<^verbatim>\<open>struct dirent\<close> (\<^verbatim>\<open>fs.h\<close>): a 16-bit inode
  number followed by the name field of \<open>DIRSIZ\<close> bytes.
\<close>

definition dirent_bytes :: "config \<Rightarrow> nat" where
  "dirent_bytes cfg = 2 + DIRSIZ cfg"

definition de_inum :: "(nat \<Rightarrow> byte) \<Rightarrow> nat" where
  "de_inum de = get_le 2 de 0"

definition de_name :: "(nat \<Rightarrow> byte) \<Rightarrow> (nat \<Rightarrow> byte)" where
  "de_name de = (\<lambda>k. de (2 + k))"

function dirlookup_block :: "config \<Rightarrow> block \<Rightarrow> (nat \<Rightarrow> byte) \<Rightarrow> nat \<Rightarrow> (nat \<times> nat) option" where
  "dirlookup_block cfg data name p =
     (if p < BSIZE cfg then
        (let de = (\<lambda>k. data (p + k)) in
         if de_inum de = 0 then dirlookup_block cfg data name (p + dirent_bytes cfg)
         else if namecmp cfg name (de_name de) = 0 then Some (p, de_inum de)
         else dirlookup_block cfg data name (p + dirent_bytes cfg))
      else None)"
  by pat_completeness auto
termination
  by (relation "measure (\<lambda>(cfg, data, name, p). BSIZE cfg - p)") (auto simp: dirent_bytes_def)

declare dirlookup_block.simps [simp del]

text \<open>
  The offset of the outer loop of \<^verbatim>\<open>dirlookup\<close> is a \<^verbatim>\<open>uint\<close>; in a directory whose size
  is within \<open>BSIZE\<close> of \<open>2 ^ 32\<close> it wraps, and the loop may then never end (\<open>None\<close>).
\<close>

partial_function (option) dirlookup_loop :: "config \<Rightarrow> fs_state \<Rightarrow> nat \<Rightarrow> (nat \<Rightarrow> byte) \<Rightarrow> nat \<Rightarrow> (halt + (nat \<times> nat) option \<times> fs_state) option" where
  "dirlookup_loop cfg st dp name off =
     (if off < size' (icache st dp) then
        (if BSIZE cfg = 0 then Some (Inl Trap)
         else
           case bmap cfg st dp (off div BSIZE cfg) of
             Inl e \<Rightarrow> Some (Inl e)
           | Inr (a, st1) \<Rightarrow>
               (case dirlookup_block cfg (bread st1 (dev (icache st1 dp)) a) name 0 of
                  Some (p, ino) \<Rightarrow>
                    (case iget cfg st1 (dev (icache st1 dp)) ino of
                       Inl e \<Rightarrow> Some (Inl e)
                     | Inr (ip, st2) \<Rightarrow> Some (Inr (Some (ip, (off + p) mod 2 ^ 32), st2)))
                | None \<Rightarrow> dirlookup_loop cfg st1 dp name ((off + BSIZE cfg) mod 2 ^ 32)))
      else Some (Inr (None, st)))"

definition dirlookup :: "config \<Rightarrow> fs_state \<Rightarrow> nat \<Rightarrow> (nat \<Rightarrow> byte) \<Rightarrow> halt + (nat \<times> nat) option \<times> fs_state" where
  "dirlookup cfg st dp name =
     (if type (icache st dp) \<noteq> T_DIR cfg then Inl (Panic ''dirlookup not DIR'')
      else
        case dirlookup_loop cfg st dp name 0 of
          None \<Rightarrow> Inl Diverges
        | Some r \<Rightarrow> r)"

lemma readi_loop_size:
  "readi_loop cfg st ip dst off n tot = Inr (dst', st') \<Longrightarrow>
   size' (icache st' k) = size' (icache st k)"
proof (induction cfg st ip dst off n tot rule: readi_loop.induct)
  case (1 cfg st ip dst off n tot)
  show ?case
  proof (cases "tot < n")
    case False
    with "1.prems" show ?thesis by (simp add: readi_loop.simps)
  next
    case True
    with "1.prems" have nz: "BSIZE cfg \<noteq> 0"
      by (auto simp: readi_loop.simps [of cfg st ip dst off n tot] split: if_splits)
    from True nz "1.prems" obtain a st1 where b: "bmap cfg st ip (off div BSIZE cfg) = Inr (a, st1)"
      by (auto simp: readi_loop.simps [of cfg st ip dst off n tot] split: sum.splits)
    let ?data = "bread st1 (dev (icache st1 ip)) a"
    let ?m = "min (n - tot) (BSIZE cfg - off mod BSIZE cfg)"
    from True nz b "1.prems"
    have "readi_loop cfg st1 ip
            (\<lambda>k. if tot \<le> k \<and> k < tot + ?m then ?data (off mod BSIZE cfg + (k - tot)) else dst k)
            ((off + ?m) mod 2 ^ 32) n (tot + ?m) = Inr (dst', st')"
      by (simp add: readi_loop.simps [of cfg st ip dst off n tot] Let_def)
    from "1.IH" [OF True nz b refl refl refl this]
    have "size' (icache st' k) = size' (icache st1 k)" .
    with bmap_size [OF b] show ?thesis by simp
  qed
qed

lemma readi_size:
  assumes "readi cfg st ip dst off n = Inr (r, dst', st')"
  shows "size' (icache st' k) = size' (icache st k)"
proof (cases "type (icache st ip) = T_DEV cfg \<or> off > size' (icache st ip)
              \<or> (off + n) mod 2 ^ 32 < off")
  case True
  with assms have "st' = st"
    by (auto simp: readi_def Let_def split: if_splits option.splits)
  then show ?thesis by simp
next
  case False
  with assms obtain n1 where "readi_loop cfg st ip dst off n1 0 = Inr (dst', st')"
    by (auto simp: readi_def Let_def split: if_splits sum.splits)
  then show ?thesis by (rule readi_loop_size)
qed

text \<open>
  The local \<^verbatim>\<open>struct dirent de\<close> of \<^verbatim>\<open>dirlink\<close> is not initialised; the model starts it
  with zero bytes. Every byte of it is written before it is read. The offset \<^verbatim>\<open>off\<close> is an
  \<^verbatim>\<open>int\<close> that is compared with, and added to, unsigned values, so it is kept as the
  \<^verbatim>\<open>uint\<close> with the same bits; as in \<^verbatim>\<open>dirlookup\<close>, the loop may never end (\<open>None\<close>).
\<close>

partial_function (option) dirlink_scan :: "config \<Rightarrow> fs_state \<Rightarrow> nat \<Rightarrow> (nat \<Rightarrow> byte) \<Rightarrow> nat \<Rightarrow> (halt + nat \<times> (nat \<Rightarrow> byte) \<times> fs_state) option" where
  "dirlink_scan cfg st dp de off =
     (if off < size' (icache st dp) then
        (case readi cfg st dp de off (dirent_bytes cfg) of
           Inl e \<Rightarrow> Some (Inl e)
         | Inr (r, de1, st1) \<Rightarrow>
             if r \<noteq> int (dirent_bytes cfg) then Some (Inl (Panic ''dirlink read''))
             else if de_inum de1 = 0 then Some (Inr (off, de1, st1))
             else dirlink_scan cfg st1 dp de1 ((off + dirent_bytes cfg) mod 2 ^ 32))
      else Some (Inr (off, de, st)))"

definition dirlink :: "config \<Rightarrow> fs_state \<Rightarrow> nat \<Rightarrow> (nat \<Rightarrow> byte) \<Rightarrow> nat \<Rightarrow> halt + int \<times> fs_state" where
  "dirlink cfg st dp name ino =
     (case dirlookup cfg st dp name of
        Inl e \<Rightarrow> Inl e
      | Inr (Some (ip, poff), st1) \<Rightarrow>
          (case iput cfg st1 ip of Inl e \<Rightarrow> Inl e | Inr st2 \<Rightarrow> Inr (- 1, st2))
      | Inr (None, st1) \<Rightarrow>
          (case dirlink_scan cfg st1 dp (\<lambda>k. 0) 0 of
             None \<Rightarrow> Inl Diverges
           | Some (Inl e) \<Rightarrow> Inl e
           | Some (Inr (off, de, st2)) \<Rightarrow>
               let de1 = (\<lambda>k. if k < 2 then de k
                               else strncpy (de_name de) name (DIRSIZ cfg) (k - 2));
                   de2 = put_le 2 (ino mod 2 ^ 16) de1 0
               in
               case writei cfg st2 dp de2 off (dirent_bytes cfg) of
                 Inl e \<Rightarrow> Inl e
               | Inr (r, st3) \<Rightarrow>
                   if r \<noteq> int (dirent_bytes cfg) then Inl (Panic ''dirlink'')
                   else Inr (0, st3)))"

subsection \<open>Paths\<close>

definition peek :: "byte list \<Rightarrow> byte" where
  "peek path = (case path of [] \<Rightarrow> 0 | c # cs \<Rightarrow> c)"

fun skip_slashes :: "byte list \<Rightarrow> byte list" where
  "skip_slashes [] = []"
| "skip_slashes (c # cs) = (if c = 47 then skip_slashes cs else c # cs)"

fun skip_name :: "byte list \<Rightarrow> byte list" where
  "skip_name [] = []"
| "skip_name (c # cs) = (if c \<noteq> 47 \<and> c \<noteq> 0 then skip_name cs else c # cs)"

definition memmove :: "(nat \<Rightarrow> byte) \<Rightarrow> byte list \<Rightarrow> nat \<Rightarrow> (nat \<Rightarrow> byte)" where
  "memmove dst s n = (\<lambda>k. if k < n then s ! k else dst k)"

definition skipelem :: "config \<Rightarrow> byte list \<Rightarrow> (nat \<Rightarrow> byte) \<Rightarrow> (byte list \<times> (nat \<Rightarrow> byte)) option" where
  "skipelem cfg path name =
     (let path1 = skip_slashes path in
      if peek path1 = 0 then None
      else
        let s = path1; path2 = skip_name path1; len = length s - length path2;
            name1 = (if len \<ge> DIRSIZ cfg then memmove name s (DIRSIZ cfg)
                     else (memmove name s len)(len := 0))
        in Some (skip_slashes path2, name1))"

lemma skip_slashes_length: "length (skip_slashes p) \<le> length p"
  by (induction p) auto

lemma skip_slashes_peek: "peek (skip_slashes p) \<noteq> 47"
  by (induction p) (auto simp: peek_def)

lemma skip_name_length: "peek p \<noteq> 47 \<Longrightarrow> peek p \<noteq> 0 \<Longrightarrow> length (skip_name p) < length p"
proof (cases p)
  case Nil
  assume "peek p \<noteq> 0"
  with Nil show ?thesis by (simp add: peek_def)
next
  case (Cons c cs)
  have "length (skip_name cs) \<le> length cs" by (induction cs) auto
  moreover assume "peek p \<noteq> 47" "peek p \<noteq> 0"
  ultimately show ?thesis using Cons by (simp add: peek_def)
qed

lemma skipelem_length:
  assumes "skipelem cfg path name = Some (path1, name1)"
  shows "length path1 < length path"
proof -
  from assms have nz: "peek (skip_slashes path) \<noteq> 0"
    and p: "path1 = skip_slashes (skip_name (skip_slashes path))"
    by (auto simp: skipelem_def Let_def split: if_splits)
  have "length path1 \<le> length (skip_name (skip_slashes path))"
    unfolding p by (rule skip_slashes_length)
  also have "\<dots> < length (skip_slashes path)"
    using skip_slashes_peek nz by (rule skip_name_length)
  also have "\<dots> \<le> length path" by (rule skip_slashes_length)
  finally show ?thesis .
qed

function namex_loop :: "config \<Rightarrow> fs_state \<Rightarrow> nat \<Rightarrow> byte list \<Rightarrow> int \<Rightarrow> (nat \<Rightarrow> byte) \<Rightarrow> halt + nat option \<times> (nat \<Rightarrow> byte) \<times> fs_state" where
  "namex_loop cfg st ip path nameiparent name =
     (case skipelem cfg path name of
        None \<Rightarrow>
          (if nameiparent \<noteq> 0 then
             (case iput cfg st ip of Inl e \<Rightarrow> Inl e | Inr st1 \<Rightarrow> Inr (None, name, st1))
           else Inr (Some ip, name, st))
      | Some (path1, name1) \<Rightarrow>
          (case ilock cfg st ip of
             Inl e \<Rightarrow> Inl e
           | Inr st1 \<Rightarrow>
               if type (icache st1 ip) \<noteq> T_DIR cfg then
                 (case iunlockput cfg st1 ip of
                    Inl e \<Rightarrow> Inl e
                  | Inr st2 \<Rightarrow> Inr (None, name1, st2))
               else if nameiparent \<noteq> 0 \<and> peek path1 = 0 then
                 (case iunlock cfg st1 ip of
                    Inl e \<Rightarrow> Inl e
                  | Inr st2 \<Rightarrow> Inr (Some ip, name1, st2))
               else
                 (case dirlookup cfg st1 ip name1 of
                    Inl e \<Rightarrow> Inl e
                  | Inr (None, st2) \<Rightarrow>
                      (case iunlockput cfg st2 ip of
                         Inl e \<Rightarrow> Inl e
                       | Inr st3 \<Rightarrow> Inr (None, name1, st3))
                  | Inr (Some (next, poff), st2) \<Rightarrow>
                      (case iunlockput cfg st2 ip of
                         Inl e \<Rightarrow> Inl e
                       | Inr st3 \<Rightarrow> namex_loop cfg st3 next path1 nameiparent name1))))"
  by pat_completeness auto
termination
  by (relation "measure (\<lambda>(cfg, st, ip, path, nameiparent, name). length path)")
     (auto dest: skipelem_length)

declare namex_loop.simps [simp del]

text \<open>\<^verbatim>\<open>proc->cwd\<close>, the current directory of the calling process, is the argument \<open>cwd\<close>.\<close>

definition namex :: "config \<Rightarrow> fs_state \<Rightarrow> nat \<Rightarrow> byte list \<Rightarrow> int \<Rightarrow> (nat \<Rightarrow> byte) \<Rightarrow> halt + nat option \<times> (nat \<Rightarrow> byte) \<times> fs_state" where
  "namex cfg st cwd path nameiparent name =
     (case (if peek path = 47 then iget cfg st (ROOTDEV cfg) (ROOTINO cfg)
            else Inr (idup st cwd)) of
        Inl e \<Rightarrow> Inl e
      | Inr (ip, st1) \<Rightarrow> namex_loop cfg st1 ip path nameiparent name)"


definition nameiparent :: "config \<Rightarrow> fs_state \<Rightarrow> nat \<Rightarrow> byte list \<Rightarrow> (nat \<Rightarrow> byte) \<Rightarrow> halt + nat option \<times> (nat \<Rightarrow> byte) \<times> fs_state" where
  "nameiparent cfg st cwd path name = namex cfg st cwd path 1 name"

subsection \<open>An example configuration\<close>

text \<open>
  The constants of the xv6 distribution (512-byte blocks, 12 direct and 128 indirect
  addresses, names of 14 bytes), a superblock with the size in bytes 0 to 3 and the
  number of inodes in bytes 8 to 11, and no device. They serve as the concrete
  instance at which the theorems below are exercised.
\<close>

definition sb_xv6 :: "block \<Rightarrow> superblock" where
  "sb_xv6 data = \<lparr>sb_size = get_le 4 data 0, sb_ninodes = get_le 4 data 8\<rparr>"

definition xv6 :: config where
  "xv6 = \<lparr>BSIZE = 512, NDIRECT = 12, NINDIRECT = 128, DIRSIZ = 14, BPB = 4096, IPB = 8,
           NINODE = 50, NDEV = 10, T_DIR = 1, T_DEV = 3, I_BUSY = 1, I_VALID = 2,
           ROOTDEV = 1, ROOTINO = 1, sb_layout = sb_xv6,
           devsw_read = (\<lambda>k. None), devsw_write = (\<lambda>k. None)\<rparr>"

definition inode0 :: inode where
  "inode0 = \<lparr>dev = 0, inum = 0, ref = 0, flags = 0, type = 0, major = 0, minor = 0,
              nlink = 0, size' = 0, addrs = (\<lambda>k. 0)\<rparr>"

definition st0 :: fs_state where
  "st0 = \<lparr>icache = (\<lambda>k. inode0), disk = (\<lambda>b k. 0), trace = []\<rparr>"

definition cstr :: "string \<Rightarrow> byte list" where
  "cstr s = map of_char s"

section \<open>Properties\<close>

subsection \<open>Block mapping beyond the maximum file size\<close>

text \<open>
  C2 (as the code has it). For every inode and every logical block index at or beyond
  the direct plus indirect capacity, \<^verbatim>\<open>bmap\<close> does not return: it stops the kernel with
  \<^verbatim>\<open>panic("bmap: out of range")\<close>. The out-of-range index is a fatal condition, not a
  failure result handed to the caller.
\<close>

theorem bmap_out_of_range:
  assumes "NDIRECT cfg + NINDIRECT cfg \<le> bn"
  shows "bmap cfg st ip bn = Inl (Panic ''bmap: out of range'')"
proof -
  from assms have "\<not> bn < NDIRECT cfg" and "\<not> bn - NDIRECT cfg < NINDIRECT cfg"
    by arith+
  then show ?thesis by (simp add: bmap_def Let_def)
qed

theorem bmap_out_of_range_witness:
  "NDIRECT xv6 + NINDIRECT xv6 \<le> 200 \<and> bmap xv6 st0 0 200 = Inl (Panic ''bmap: out of range'')"
  using bmap_out_of_range [of xv6 200 st0 0] by (simp add: xv6_def)

text \<open>
  C2 as stated fails: at the first block index past the capacity (140 with the xv6
  constants) the result of \<^verbatim>\<open>bmap\<close> is the panic, not a value returned to the caller.
\<close>

theorem bmap_halts_counterexample:
  "bmap xv6 st0 0 140 = Inl (Panic ''bmap: out of range'')"
  by (simp add: bmap_def xv6_def Let_def)

subsection \<open>Directory lookup in an inode that is not a directory\<close>

text \<open>
  C9. For every inode whose type is not the directory type, \<^verbatim>\<open>dirlookup\<close> does not
  return a not-found or failure result: it stops the kernel with
  \<^verbatim>\<open>panic("dirlookup not DIR")\<close>.
\<close>

theorem dirlookup_not_dir:
  "type (icache st dp) \<noteq> T_DIR cfg \<Longrightarrow>
   dirlookup cfg st dp name = Inl (Panic ''dirlookup not DIR'')"
  by (simp add: dirlookup_def)

theorem dirlookup_not_dir_witness:
  "type (icache st0 0) \<noteq> T_DIR xv6 \<and>
   dirlookup xv6 st0 0 (\<lambda>k. 0) = Inl (Panic ''dirlookup not DIR'')"
  using dirlookup_not_dir [of st0 0 xv6 "\<lambda>k. 0"] by (simp add: xv6_def st0_def inode0_def)

subsection \<open>Splitting off the first path component\<close>

lemma skip_slashes_append: "\<forall>c \<in> set sl. c = 47 \<Longrightarrow> skip_slashes (sl @ p) = skip_slashes p"
  by (induction sl) auto

lemma skip_slashes_id: "peek p \<noteq> 47 \<Longrightarrow> skip_slashes p = p"
  by (cases p) (auto simp: peek_def)

lemma skip_name_append:
  "47 \<notin> set s \<Longrightarrow> 0 \<notin> set s \<Longrightarrow> peek r = 47 \<or> peek r = 0 \<Longrightarrow> skip_name (s @ r) = r"
  by (induction s) (auto simp: peek_def split: list.splits)

lemma skipelem_component:
  assumes sl: "\<forall>c \<in> set sl. c = 47" and s: "s \<noteq> []" "47 \<notin> set s" "0 \<notin> set s"
    and r: "peek r = 47 \<or> peek r = 0"
  shows "skipelem cfg (sl @ s @ r) name =
         Some (skip_slashes r,
               if length s \<ge> DIRSIZ cfg then memmove name (s @ r) (DIRSIZ cfg)
               else (memmove name (s @ r) (length s))(length s := 0))"
proof -
  from s have p: "peek (s @ r) \<noteq> 47" "peek (s @ r) \<noteq> 0"
    by (cases s; simp add: peek_def)+
  have 1: "skip_slashes (sl @ s @ r) = s @ r"
    using sl p by (simp add: skip_slashes_append skip_slashes_id)
  have 2: "skip_name (s @ r) = r" using s r by (simp add: skip_name_append)
  show ?thesis using p by (simp add: skipelem_def 1 2 Let_def)
qed

text \<open>
  C10. Let the path consist of leading slashes \<open>sl\<close>, a component \<open>s\<close> (not empty, free
  of slashes and NULs) and a rest \<open>r\<close> that is empty or starts with a slash or a NUL.
  If the component has \<open>DIRSIZ\<close> bytes or more (also exactly \<open>DIRSIZ\<close>), \<^verbatim>\<open>skipelem\<close>
  copies its first \<open>DIRSIZ\<close> bytes into the name buffer, none of them a NUL, and
  leaves every other byte of the buffer as it was: no terminator is written. If the
  component is shorter, it is copied and followed by a NUL at index \<open>length s\<close>, and
  the bytes after that are left as they were.
\<close>

theorem skipelem_copies:
  assumes "\<forall>c \<in> set sl. c = 47" and "s \<noteq> []" and "47 \<notin> set s" and "0 \<notin> set s"
    and "peek r = 47 \<or> peek r = 0"
  shows "\<exists>name1. skipelem cfg (sl @ s @ r) name = Some (skip_slashes r, name1) \<and>
           (if DIRSIZ cfg \<le> length s
            then (\<forall>k < DIRSIZ cfg. name1 k = s ! k \<and> name1 k \<noteq> 0) \<and>
                 (\<forall>k \<ge> DIRSIZ cfg. name1 k = name k)
            else (\<forall>k < length s. name1 k = s ! k \<and> name1 k \<noteq> 0) \<and> name1 (length s) = 0 \<and>
                 (\<forall>k > length s. name1 k = name k))"
proof -
  have nz: "s ! k \<noteq> 0" if "k < length s" for k
    using that assms(4) by (metis nth_mem)
  show ?thesis
    unfolding skipelem_component [OF assms]
    by (auto simp: memmove_def nth_append nz)
qed

theorem skipelem_copies_witness:
  "(\<exists>name1. skipelem xv6 (cstr ''//abcdefghijklmn/x'') (\<lambda>k. 7) = Some (cstr ''x'', name1) \<and>
      (\<forall>k<14. name1 k = cstr ''abcdefghijklmn'' ! k \<and> name1 k \<noteq> 0) \<and>
      (\<forall>k\<ge>14. name1 k = 7)) \<and>
   (\<exists>name1. skipelem xv6 (cstr ''a/bb/c'') (\<lambda>k. 7) = Some (cstr ''bb/c'', name1) \<and>
      name1 0 = 97 \<and> name1 1 = 0 \<and> (\<forall>k>1. name1 k = 7))"
  using skipelem_copies [of "cstr ''//''" "cstr ''abcdefghijklmn''" "cstr ''/x''" xv6 "\<lambda>k. 7"]
    skipelem_copies [of "[]" "cstr ''a''" "cstr ''/bb/c''" xv6 "\<lambda>k. 7"]
  by (auto simp: cstr_def xv6_def peek_def)

definition config_ok :: "config \<Rightarrow> bool" where
  "config_ok cfg \<longleftrightarrow> 0 < BSIZE cfg \<and> 0 < BPB cfg \<and> 0 < IPB cfg
     \<and> MAXFILE cfg * BSIZE cfg < 2 ^ 31"

lemma bwrite_trace [simp]: "trace (bwrite st d bno data) = trace st"
  by (simp add: bwrite_def)

lemma balloc_halt:
  "config_ok cfg \<Longrightarrow> balloc cfg st d = Inl e \<Longrightarrow>
   e = Panic ''balloc: out of blocks'' \<or> e = Diverges"
  using balloc_scan_result [of cfg st d "readsb cfg st d" 0]
  by (auto simp: balloc_def config_ok_def split: option.splits)

lemma balloc_trace: "balloc cfg st d = Inr (a, st') \<Longrightarrow> trace st' = trace st"
  using balloc_scan_result [of cfg st d "readsb cfg st d" 0]
  by (auto simp: balloc_def split: option.splits)

lemma bmap_slot_halt:
  "config_ok cfg \<Longrightarrow> bmap_slot cfg st ip k = Inl e \<Longrightarrow> e = Panic ''balloc: out of blocks'' \<or> e = Diverges"
  by (auto simp: bmap_slot_def Let_def split: if_splits sum.splits dest: balloc_halt)

lemma bmap_slot_trace: "bmap_slot cfg st ip k = Inr (a, st') \<Longrightarrow> trace st' = trace st"
  by (auto simp: bmap_slot_def Let_def set_addr_def split: if_splits sum.splits dest: balloc_trace)

lemma bmap_halt:
  assumes "config_ok cfg" and "bn < MAXFILE cfg" and "bmap cfg st ip bn = Inl e"
  shows "e = Panic ''balloc: out of blocks'' \<or> e = Diverges"
proof (cases "bn < NDIRECT cfg")
  case True
  with assms show ?thesis by (auto simp: bmap_def dest: bmap_slot_halt)
next
  case False
  with assms(2) have r: "bn - NDIRECT cfg < NINDIRECT cfg" by (simp add: MAXFILE_def)
  show ?thesis
  proof (cases "bmap_slot cfg st ip (NDIRECT cfg)")
    case (Inl e')
    with assms False r show ?thesis by (auto simp: bmap_def dest: bmap_slot_halt)
  next
    case (Inr x)
    with assms False r show ?thesis
      by (auto simp: bmap_def Let_def split: prod.splits if_splits sum.splits dest: balloc_halt)
  qed
qed

lemma bmap_trace:
  assumes "bmap cfg st ip bn = Inr (a, st')"
  shows "trace st' = trace st"
proof (cases "bn < NDIRECT cfg")
  case True
  with assms show ?thesis by (auto simp: bmap_def dest: bmap_slot_trace)
next
  case False
  with assms show ?thesis
    by (auto simp: bmap_def Let_def split: prod.splits if_splits sum.splits
             dest!: balloc_trace bmap_slot_trace)
qed


lemma block_in_range:
  assumes "config_ok cfg" and "tot < n" and "off + (n - tot) \<le> MAXFILE cfg * BSIZE cfg"
  shows "off div BSIZE cfg < MAXFILE cfg"
proof -
  from assms have "off < MAXFILE cfg * BSIZE cfg" by simp
  then show ?thesis by (simp add: less_mult_imp_div_less)
qed

lemma chunk_no_wrap:
  assumes "config_ok cfg" and "tot < n" and "off + (n - tot) \<le> MAXFILE cfg * BSIZE cfg"
  shows "(off + min (n - tot) (BSIZE cfg - off mod BSIZE cfg)) mod 2 ^ 32
         = off + min (n - tot) (BSIZE cfg - off mod BSIZE cfg)"
proof -
  from assms(1) have "MAXFILE cfg * BSIZE cfg < (2::nat) ^ 32"
    by (simp add: config_ok_def)
  with assms(3) have "off + min (n - tot) (BSIZE cfg - off mod BSIZE cfg) < 2 ^ 32" by simp
  then show ?thesis by simp
qed

lemma writei_loop_spec:
  assumes "config_ok cfg" and "tot \<le> n" and "off + (n - tot) \<le> MAXFILE cfg * BSIZE cfg"
  shows "case writei_loop cfg st ip src off n tot of
           Inl e \<Rightarrow> e = Panic ''balloc: out of blocks'' \<or> e = Diverges
         | Inr (off', st') \<Rightarrow> off' = off + (n - tot) \<and> trace st' = trace st \<and>
             (\<exists>ad. icache st' = (icache st)(ip := (icache st ip)\<lparr>addrs := ad\<rparr>))"
  using assms
proof (induction cfg st ip src off n tot rule: writei_loop.induct)
  case (1 cfg st ip src off n tot)
  show ?case
  proof (cases "tot < n")
    case False
    have "icache st = (icache st)(ip := (icache st ip)\<lparr>addrs := addrs (icache st ip)\<rparr>)"
      by simp
    then have "\<exists>ad. icache st = (icache st)(ip := (icache st ip)\<lparr>addrs := ad\<rparr>)"
      by (rule exI [of _ "addrs (icache st ip)"])
    moreover from False have "writei_loop cfg st ip src off n tot = Inr (off, st)"
      by (simp add: writei_loop.simps [of cfg st ip src off n tot])
    ultimately show ?thesis using False "1.prems" by simp
  next
    case True
    from "1.prems" have nz: "BSIZE cfg \<noteq> 0" by (simp add: config_ok_def)
    let ?m = "min (n - tot) (BSIZE cfg - off mod BSIZE cfg)"
    have wrap: "(off + ?m) mod 2 ^ 32 = off + ?m"
      using "1.prems"(1) True "1.prems"(3) by (rule chunk_no_wrap)
    show ?thesis
    proof (cases "bmap cfg st ip (off div BSIZE cfg)")
      case (Inl e)
      from block_in_range [OF "1.prems"(1) True "1.prems"(3)] Inl "1.prems"(1)
      have "e = Panic ''balloc: out of blocks'' \<or> e = Diverges" by (rule bmap_halt [rotated 1])
      with Inl True nz show ?thesis by (simp add: writei_loop.simps [of cfg st ip src off n tot])
    next
      case (Inr x)
      obtain a st1 where x: "x = (a, st1)" by (cases x)
      let ?d = "dev (icache st1 ip)"
      let ?data1 = "\<lambda>k. if off mod BSIZE cfg \<le> k \<and> k < off mod BSIZE cfg + ?m
                         then src (tot + (k - off mod BSIZE cfg)) else bread st1 ?d a k"
      let ?st2 = "bwrite st1 ?d a ?data1"
      have eq: "writei_loop cfg st ip src off n tot
                = writei_loop cfg ?st2 ip src (off + ?m) n (tot + ?m)"
        using True nz Inr x wrap
        by (simp add: writei_loop.simps [of cfg st ip src off n tot] Let_def)
      from True have le: "tot + ?m \<le> n" by simp
      from True "1.prems"(3) have bd: "off + ?m + (n - (tot + ?m)) \<le> MAXFILE cfg * BSIZE cfg"
        by simp
      from Inr x have b: "bmap cfg st ip (off div BSIZE cfg) = Inr (a, st1)" by simp
      note IH = "1.IH" [OF True nz b refl refl refl refl refl "1.prems"(1), unfolded wrap, OF le bd]
      from bmap_icache [OF b] obtain ad1
        where ic: "icache st1 = (icache st)(ip := (icache st ip)\<lparr>addrs := ad1\<rparr>)" ..
      show ?thesis
      proof (cases "writei_loop cfg ?st2 ip src (off + ?m) n (tot + ?m)")
        case (Inl e)
        with IH eq show ?thesis by simp
      next
        case (Inr y)
        obtain off' st' where y: "y = (off', st')" by (cases y)
        from IH Inr y obtain ad where o: "off' = off + ?m + (n - (tot + ?m))"
          and t: "trace st' = trace ?st2"
          and i: "icache st' = (icache ?st2)(ip := (icache ?st2 ip)\<lparr>addrs := ad\<rparr>)"
          by auto
        from i ic have "icache st' = (icache st)(ip := (icache st ip)\<lparr>addrs := ad\<rparr>)"
          by simp
        then have "\<exists>ad. icache st' = (icache st)(ip := (icache st ip)\<lparr>addrs := ad\<rparr>)"
          by (rule exI [of _ ad])
        moreover from o True have "off' = off + (n - tot)" by simp
        moreover from t bmap_trace [OF b] have "trace st' = trace st" by simp
        ultimately show ?thesis using eq Inr y by simp
      qed
    qed
  qed
qed


definition disk_type :: "config \<Rightarrow> fs_state \<Rightarrow> nat \<Rightarrow> nat \<Rightarrow> 16 word" where
  "disk_type cfg st d i =
     of_nat (get_le 2 (bread st d (IBLOCK cfg i)) ((i mod IPB cfg) * dinode_bytes cfg))"

definition disk_size :: "config \<Rightarrow> fs_state \<Rightarrow> nat \<Rightarrow> nat \<Rightarrow> nat" where
  "disk_size cfg st d i =
     get_le 4 (bread st d (IBLOCK cfg i)) ((i mod IPB cfg) * dinode_bytes cfg + 8)"

definition disk_addr :: "config \<Rightarrow> fs_state \<Rightarrow> nat \<Rightarrow> nat \<Rightarrow> nat \<Rightarrow> nat" where
  "disk_addr cfg st d i k =
     get_le 4 (bread st d (IBLOCK cfg i)) ((i mod IPB cfg) * dinode_bytes cfg + 12 + 4 * k)"

lemma put_le_other: "k < p \<or> p + w \<le> k \<Longrightarrow> put_le w v data p k = data k"
  by (induction w arbitrary: v data p) auto

lemma get_le_cong:
  "(\<And>k. k < w \<Longrightarrow> d1 (p + k) = d2 (p + k)) \<Longrightarrow> get_le w d1 p = get_le w d2 p"
proof (induction w arbitrary: p)
  case 0
  show ?case by simp
next
  case (Suc w)
  from Suc.prems [of 0] have "d1 p = d2 p" by simp
  moreover have "get_le w d1 (Suc p) = get_le w d2 (Suc p)"
  proof (rule Suc.IH)
    fix k assume "k < w"
    with Suc.prems [of "Suc k"] show "d1 (Suc p + k) = d2 (Suc p + k)" by simp
  qed
  ultimately show ?case by simp
qed

lemma get_put_le: "get_le w (put_le w v data p) p = v mod 256 ^ w"
proof (induction w arbitrary: v data p)
  case 0
  show ?case by simp
next
  case (Suc w)
  have "put_le w (v div 256) (data(p := of_nat v)) (Suc p) p = (of_nat v :: byte)"
    by (simp add: put_le_other)
  moreover have "unat (of_nat v :: byte) = v mod 256"
    by (simp add: unat_of_nat)
  ultimately have "get_le (Suc w) (put_le (Suc w) v data p) p
                   = v mod 256 + 256 * ((v div 256) mod 256 ^ w)"
    by (simp add: Suc.IH)
  also have "\<dots> = v mod 256 ^ Suc w"
    by (simp add: mod_mult2_eq)
  finally show ?case .
qed

lemma get_le_put_le_other:
  "q + w' \<le> p \<or> p + w \<le> q \<Longrightarrow> get_le w' (put_le w v data p) q = get_le w' data q"
  by (rule get_le_cong) (auto intro: put_le_other)

lemma put_addrs_other: "k < p \<or> p + 4 * n \<le> k \<Longrightarrow> put_addrs n a data p k = data k"
  by (induction n) (auto simp: put_le_other)

lemma get_put_addrs:
  "j < n \<Longrightarrow> get_le 4 (put_addrs n a data p) (p + 4 * j) = a j mod 2 ^ 32"
proof (induction n)
  case 0
  then show ?case by simp
next
  case (Suc n)
  show ?case
  proof (cases "j = n")
    case True
    have "get_le 4 (put_le 4 (a n) (put_addrs n a data p) (p + 4 * n)) (p + 4 * n)
          = a n mod 256 ^ 4" by (rule get_put_le)
    with True show ?thesis by simp
  next
    case False
    with Suc.prems have "j < n" by simp
    then have "get_le 4 (put_le 4 (a n) (put_addrs n a data p) (p + 4 * n)) (p + 4 * j)
               = get_le 4 (put_addrs n a data p) (p + 4 * j)"
      by (intro get_le_put_le_other) simp
    with Suc.IH [OF \<open>j < n\<close>] show ?thesis by simp
  qed
qed

lemma get_le_put_addrs_other:
  "q + w \<le> p \<Longrightarrow> get_le w (put_addrs n a data p) q = get_le w data q"
  by (rule get_le_cong) (auto intro: put_addrs_other)

lemma iupdate_spec:
  assumes "0 < IPB cfg"
  shows "\<exists>st'. iupdate cfg st ip = Inr st' \<and> icache st' = icache st
           \<and> trace st' = trace st @ [Iupdate ip (type (icache st ip))]
           \<and> disk_type cfg st' (dev (icache st ip)) (inum (icache st ip)) = type (icache st ip)
           \<and> disk_size cfg st' (dev (icache st ip)) (inum (icache st ip))
               = size' (icache st ip) mod 2 ^ 32
           \<and> (\<forall>k \<le> NDIRECT cfg. disk_addr cfg st' (dev (icache st ip)) (inum (icache st ip)) k
               = addrs (icache st ip) k mod 2 ^ 32)"
proof -
  let ?i = "icache st ip"
  define p where "p = (inum ?i mod IPB cfg) * dinode_bytes cfg"
  define st1 where "st1 = st\<lparr>trace := trace st @ [Iupdate ip (type ?i)]\<rparr>"
  define D1 where "D1 = put_le 2 (unat (type ?i)) (bread st1 (dev ?i) (IBLOCK cfg (inum ?i))) p"
  define D4 where "D4 = put_le 2 (unat (nlink ?i)) (put_le 2 (unat (minor ?i))
                          (put_le 2 (unat (major ?i)) D1 (p + 2)) (p + 4)) (p + 6)"
  define D5 where "D5 = put_le 4 (size' ?i) D4 (p + 8)"
  define D6 where "D6 = put_addrs (NDIRECT cfg + 1) (addrs ?i) D5 (p + 12)"
  define st' where "st' = bwrite st1 (dev ?i) (IBLOCK cfg (inum ?i)) D6"
  have r: "iupdate cfg st ip = Inr st'"
    using assms
    by (simp add: iupdate_def Let_def st'_def D6_def D5_def D4_def D1_def p_def st1_def
             del: put_addrs.simps put_le.simps)
  have blk: "bread st' (dev ?i) (IBLOCK cfg (inum ?i)) = D6"
    by (simp add: st'_def bwrite_def bread_def)
  have "unat (type ?i) < 2 ^ 16" using unsigned_less [of "type ?i"] by simp
  then have ty: "of_nat (unat (type ?i) mod 256 ^ 2) = type ?i" by simp
  have "get_le 2 D6 p = get_le 2 D5 p"
    unfolding D6_def by (rule get_le_put_addrs_other) simp
  also have "\<dots> = get_le 2 D4 p"
    unfolding D5_def by (rule get_le_put_le_other) simp
  also have "\<dots> = get_le 2 D1 p"
    unfolding D4_def by (simp add: get_le_put_le_other del: put_le.simps get_le.simps)
  also have "\<dots> = unat (type ?i) mod 256 ^ 2"
    unfolding D1_def by (rule get_put_le)
  finally have 1: "disk_type cfg st' (dev ?i) (inum ?i) = type ?i"
    using ty by (simp add: disk_type_def blk p_def)
  have "get_le 4 D6 (p + 8) = get_le 4 D5 (p + 8)"
    unfolding D6_def by (rule get_le_put_addrs_other) simp
  also have "\<dots> = size' ?i mod 256 ^ 4"
    unfolding D5_def by (rule get_put_le)
  finally have 2: "disk_size cfg st' (dev ?i) (inum ?i) = size' ?i mod 2 ^ 32"
    by (simp add: disk_size_def blk p_def)
  have 3: "disk_addr cfg st' (dev ?i) (inum ?i) k = addrs ?i k mod 2 ^ 32"
    if "k \<le> NDIRECT cfg" for k
  proof -
    from that have "k < NDIRECT cfg + 1" by simp
    then have "get_le 4 D6 (p + 12 + 4 * k) = addrs ?i k mod 2 ^ 32"
      unfolding D6_def by (rule get_put_addrs)
    then show ?thesis by (simp add: disk_addr_def blk p_def)
  qed
  have 4: "icache st' = icache st" and 5: "trace st' = trace st @ [Iupdate ip (type ?i)]"
    by (simp_all add: st'_def st1_def)
  from r 1 2 3 4 5 show ?thesis by blast
qed

lemma to_int_small: "n < 2 ^ 31 \<Longrightarrow> to_int n = int n"
  by (simp add: to_int_def)

lemma clamp_sub_gen:
  assumes "off \<le> M" and "M < (K::nat)"
  shows "(M + K - off) mod K = M - off"
proof -
  define D where "D = M - off"
  have "M + K - off = D + K" unfolding D_def using assms(1) by linarith
  moreover have "D < K" unfolding D_def using assms(2) by linarith
  ultimately have "(M + K - off) mod K = D" by simp
  then show ?thesis by (simp only: D_def)
qed

lemma clamp_sub:
  assumes "off \<le> M" and "M < (2::nat) ^ 31"
  shows "(M + 2 ^ 32 - off) mod 2 ^ 32 = M - off"
proof -
  from assms(2) have "M < (2::nat) ^ 32" by simp
  with assms(1) show ?thesis by (rule clamp_sub_gen)
qed

lemma writei_clamp:
  assumes "off \<le> M" and "M < (2::nat) ^ 31" and "off + n < 2 ^ 32"
  shows "(if (off + n) mod 2 ^ 32 > M mod 2 ^ 32 then (M mod 2 ^ 32 + 2 ^ 32 - off) mod 2 ^ 32 else n)
         = min n (M - off)"
proof -
  from assms(2) have Mm: "M mod 2 ^ 32 = M" by simp
  from assms(3) have ovm: "(off + n) mod 2 ^ 32 = off + n" by simp
  show ?thesis
  proof (cases "off + n > M")
    case True
    with assms(1) have "min n (M - off) = M - off" by linarith
    with True show ?thesis by (simp only: Mm ovm clamp_sub [OF assms(1,2)] if_True)
  next
    case False
    with assms(1) have "min n (M - off) = n" by linarith
    with False show ?thesis by (simp only: Mm ovm if_False)
  qed
qed


lemma writei_spec:
  assumes ok: "config_ok cfg" and nd: "type (icache st ip) \<noteq> T_DEV cfg"
    and off: "off \<le> size' (icache st ip)" and ov: "off + n < 2 ^ 32"
    and sz: "size' (icache st ip) \<le> MAXFILE cfg * BSIZE cfg"
  shows "case writei cfg st ip src off n of
           Inl e \<Rightarrow> e = Panic ''balloc: out of blocks'' \<or> e = Diverges
         | Inr (r, st') \<Rightarrow>
             r = int (min n (MAXFILE cfg * BSIZE cfg - off)) \<and>
             (if 0 < min n (MAXFILE cfg * BSIZE cfg - off)
                 \<and> size' (icache st ip) < off + min n (MAXFILE cfg * BSIZE cfg - off)
              then size' (icache st' ip) = off + min n (MAXFILE cfg * BSIZE cfg - off)
                 \<and> trace st' = trace st @ [Iupdate ip (type (icache st ip))]
                 \<and> disk_size cfg st' (dev (icache st ip)) (inum (icache st ip))
                     = off + min n (MAXFILE cfg * BSIZE cfg - off)
              else size' (icache st' ip) = size' (icache st ip) \<and> trace st' = trace st)"
proof -
  define M where "M = MAXFILE cfg * BSIZE cfg"
  define n1 where "n1 = min n (M - off)"
  from ok have M: "M < 2 ^ 31" and ipb: "0 < IPB cfg" by (simp_all add: config_ok_def M_def)
  from ov have ovm: "(off + n) mod 2 ^ 32 = off + n" by simp
  from off sz have offM: "off \<le> M" by (simp add: M_def)
  note cl = writei_clamp [OF offM M ov, folded n1_def]
  have w: "writei cfg st ip src off n =
           (case writei_loop cfg st ip src off n1 0 of
              Inl e \<Rightarrow> Inl e
            | Inr (off1, st1) \<Rightarrow>
                if n1 > 0 \<and> off1 > size' (icache st1 ip) then
                  (case iupdate cfg (upd_inode st1 ip (\<lambda>i. i\<lparr>size' := off1\<rparr>)) ip of
                     Inl e \<Rightarrow> Inl e
                   | Inr st2 \<Rightarrow> Inr (to_int n1, st2))
                else Inr (to_int n1, st1))"
  proof -
    from off ovm have c: "\<not> (off > size' (icache st ip) \<or> (off + n) mod 2 ^ 32 < off)"
      by simp
    show ?thesis
      by (simp only: writei_def Let_def nd c if_False M_def [symmetric] cl)
  qed
  have n1M: "off + n1 \<le> M" unfolding n1_def using offM by linarith
  then have bound: "off + (n1 - 0) \<le> MAXFILE cfg * BSIZE cfg" by (simp add: M_def)
  from n1M M have "n1 < 2 ^ 31" by linarith
  then have ti: "to_int n1 = int n1" by (rule to_int_small)
  note L = writei_loop_spec [OF ok le0 bound, of st ip src]
  have "case writei cfg st ip src off n of
           Inl e \<Rightarrow> e = Panic ''balloc: out of blocks'' \<or> e = Diverges
         | Inr (r, st') \<Rightarrow>
             r = int n1 \<and>
             (if 0 < n1 \<and> size' (icache st ip) < off + n1
              then size' (icache st' ip) = off + n1
                 \<and> trace st' = trace st @ [Iupdate ip (type (icache st ip))]
                 \<and> disk_size cfg st' (dev (icache st ip)) (inum (icache st ip)) = off + n1
              else size' (icache st' ip) = size' (icache st ip) \<and> trace st' = trace st)"
  proof (cases "writei_loop cfg st ip src off n1 0")
    case (Inl e)
    with L w show ?thesis by simp
  next
    case (Inr x)
    obtain off1 st1 where x: "x = (off1, st1)" by (cases x)
    from L Inr x obtain ad where o: "off1 = off + n1" and t: "trace st1 = trace st"
      and i: "icache st1 = (icache st)(ip := (icache st ip)\<lparr>addrs := ad\<rparr>)" by auto
    from i have s1: "size' (icache st1 ip) = size' (icache st ip)"
      and ty1: "type (icache st1 ip) = type (icache st ip)"
      and d1: "dev (icache st1 ip) = dev (icache st ip)"
      and in1: "inum (icache st1 ip) = inum (icache st ip)" by simp_all
    show ?thesis
    proof (cases "n1 > 0 \<and> off1 > size' (icache st1 ip)")
      case False
      with w Inr x ti s1 t o show ?thesis by auto
    next
      case True
      let ?st2 = "upd_inode st1 ip (\<lambda>i. i\<lparr>size' := off1\<rparr>)"
      from iupdate_spec [OF ipb, of ?st2 ip] obtain st'
        where u: "iupdate cfg ?st2 ip = Inr st'" and ic: "icache st' = icache ?st2"
          and tr: "trace st' = trace ?st2 @ [Iupdate ip (type (icache ?st2 ip))]"
          and ds: "disk_size cfg st' (dev (icache ?st2 ip)) (inum (icache ?st2 ip))
                   = size' (icache ?st2 ip) mod 2 ^ 32"
        by blast
      from o n1M M have "off1 < 2 ^ 31" by linarith
      then have "off1 < 2 ^ 32" by simp
      with ds have "disk_size cfg st' (dev (icache st ip)) (inum (icache st ip)) = off1"
        by (simp add: upd_inode_def d1 in1)
      moreover from ic have "size' (icache st' ip) = off1" by (simp add: upd_inode_def)
      moreover from tr have "trace st' = trace st @ [Iupdate ip (type (icache st ip))]"
        by (simp add: upd_inode_def ty1 t)
      ultimately show ?thesis using w Inr x True u ti o s1 by simp
    qed
  qed
  then show ?thesis by (simp only: n1_def M_def)
qed

text \<open>
  An example state: slot 0 of the cache holds a regular file (inode 5 of device 1) of
  10 bytes whose first block is block 100; byte \<open>k\<close> of that block is \<open>k\<close>, every other
  block is zero.
\<close>

definition file_inode :: inode where
  "file_inode = \<lparr>dev = 1, inum = 5, ref = 1, flags = 2, type = 2, major = 0, minor = 0,
              nlink = 1, size' = 10, addrs = (\<lambda>k. if k = 0 then 100 else 0)\<rparr>"

definition st_file :: fs_state where
  "st_file = \<lparr>icache = (\<lambda>k. if k = 0 then file_inode else inode0),
               disk = (\<lambda>b k. if b = (1, 100) then of_nat k else 0), trace = []\<rparr>"

lemma xv6_ok: "config_ok xv6"
  by (simp add: config_ok_def xv6_def MAXFILE_def)



lemma wraps_iff:
  assumes "off < 2 ^ 32" and "n < 2 ^ 32"
  shows "(off + n) mod 2 ^ 32 < off \<longleftrightarrow> (2::nat) ^ 32 \<le> off + n"
proof (cases "off + n < 2 ^ 32")
  case True
  then show ?thesis by simp
next
  case False
  define K :: nat where "K = 2 ^ 32"
  from False assms have "K \<le> off + n" "off + n - K < K" "off + n - K < off"
    unfolding K_def by linarith+
  moreover from this have "(off + n) mod K = off + n - K"
    by (metis le_add_diff_inverse2 mod_add_self2 mod_less)
  ultimately show ?thesis unfolding K_def by simp
qed





lemma ex2: "\<exists>st'. writei xv6 st_file 0 (\<lambda>k. 65) 2 4 = Inr (4, st')"
  by (simp add: writei_def writei_loop.simps bmap_def bmap_slot_def iupdate_def upd_inode_def
      xv6_def st_file_def file_inode_def inode0_def Let_def to_int_def MAXFILE_def bread_def bwrite_def)

text \<open>
  C8. For an inode that is not a device, a call of \<^verbatim>\<open>writei\<close> that passes the entry
  checks and whose clamped byte range ends within the current size leaves the size
  field as it was and does not call \<^verbatim>\<open>iupdate\<close> (the trace of calls is unchanged).
  Conversely, when the size or the trace has changed, at least one byte was written and
  the write ended past the previous size.
\<close>

theorem writei_within_size:
  assumes "config_ok cfg" and "type (icache st ip) \<noteq> T_DEV cfg"
    and "off \<le> size' (icache st ip)" and "off + n < 2 ^ 32"
    and "size' (icache st ip) \<le> MAXFILE cfg * BSIZE cfg"
  shows "case writei cfg st ip src off n of
           Inl e \<Rightarrow> e = Panic ''balloc: out of blocks'' \<or> e = Diverges
         | Inr (r, st') \<Rightarrow>
             r = int (min n (MAXFILE cfg * BSIZE cfg - off)) \<and>
             (off + nat r \<le> size' (icache st ip) \<longrightarrow>
                size' (icache st' ip) = size' (icache st ip) \<and> trace st' = trace st) \<and>
             (size' (icache st' ip) \<noteq> size' (icache st ip) \<or> trace st' \<noteq> trace st \<longrightarrow>
                0 < r \<and> size' (icache st ip) < off + nat r)"
proof (cases "writei cfg st ip src off n")
  case (Inl e)
  with writei_spec [OF assms, of src] show ?thesis by simp
next
  case (Inr x)
  obtain r st' where "x = (r, st')" by (cases x)
  with writei_spec [OF assms, of src] Inr show ?thesis by (auto split: if_splits)
qed

theorem writei_within_size_witness:
  "config_ok xv6 \<and> type (icache st_file 0) \<noteq> T_DEV xv6
   \<and> 2 \<le> size' (icache st_file 0) \<and> size' (icache st_file 0) \<le> MAXFILE xv6 * BSIZE xv6
   \<and> (\<exists>st'. writei xv6 st_file 0 (\<lambda>k. 65) 2 4 = Inr (4, st') \<and> size' (icache st' 0) = 10
         \<and> trace st' = trace st_file)"
proof -
  have h: "type (icache st_file 0) \<noteq> T_DEV xv6" "2 \<le> size' (icache st_file 0)"
    "2 + 4 < (2::nat) ^ 32" "size' (icache st_file 0) \<le> MAXFILE xv6 * BSIZE xv6"
    by (simp_all add: st_file_def file_inode_def xv6_def MAXFILE_def)
  obtain st' where e: "writei xv6 st_file 0 (\<lambda>k. 65) 2 4 = Inr (4, st')"
    using ex2 ..
  from writei_within_size [OF xv6_ok h, of "\<lambda>k. 65"] e
  have "size' (icache st' 0) = 10 \<and> trace st' = trace st_file"
    by (simp add: st_file_def file_inode_def)
  with h e xv6_ok show ?thesis by blast
qed

definition baddr :: "config \<Rightarrow> fs_state \<Rightarrow> nat \<Rightarrow> nat \<Rightarrow> nat" where
  "baddr cfg st ip bn =
     (if bn < NDIRECT cfg then addrs (icache st ip) bn
      else get_le 4 (bread st (dev (icache st ip)) (addrs (icache st ip) (NDIRECT cfg)))
             (4 * (bn - NDIRECT cfg)))"

definition mapped :: "config \<Rightarrow> fs_state \<Rightarrow> nat \<Rightarrow> nat \<Rightarrow> bool" where
  "mapped cfg st ip bn \<longleftrightarrow>
     baddr cfg st ip bn \<noteq> 0 \<and> (NDIRECT cfg \<le> bn \<longrightarrow> addrs (icache st ip) (NDIRECT cfg) \<noteq> 0)"

definition file_byte :: "config \<Rightarrow> fs_state \<Rightarrow> nat \<Rightarrow> nat \<Rightarrow> byte" where
  "file_byte cfg st ip pos =
     bread st (dev (icache st ip)) (baddr cfg st ip (pos div BSIZE cfg)) (pos mod BSIZE cfg)"

lemma bmap_mapped:
  assumes "bn < MAXFILE cfg" and "mapped cfg st ip bn"
  shows "bmap cfg st ip bn = Inr (baddr cfg st ip bn, st)"
proof (cases "bn < NDIRECT cfg")
  case True
  with assms(2) show ?thesis by (simp add: bmap_def bmap_slot_def mapped_def baddr_def)
next
  case False
  with assms(1) have "bn - NDIRECT cfg < NINDIRECT cfg" by (simp add: MAXFILE_def)
  with False assms(2) show ?thesis
    by (simp add: bmap_def bmap_slot_def mapped_def baddr_def Let_def)
qed

lemma chunk_same_block:
  assumes "0 < (B::nat)" and "j < B - off mod B"
  shows "(off + j) div B = off div B" and "(off + j) mod B = off mod B + j"
proof -
  define r where "r = off mod B + j"
  from assms have lt: "r < B" unfolding r_def by linarith
  have e: "off + j = r + off div B * B" unfolding r_def by simp
  from assms(1) lt have "(r + off div B * B) div B = off div B" by simp
  then show "(off + j) div B = off div B" by (simp only: e)
  from lt have "(r + off div B * B) mod B = r" by simp
  then show "(off + j) mod B = off mod B + j" by (simp only: e) (simp only: r_def)
qed

lemma readi_loop_mapped:
  assumes "config_ok cfg" and "tot \<le> n" and "off + (n - tot) \<le> MAXFILE cfg * BSIZE cfg"
    and "\<forall>pos. off \<le> pos \<and> pos < off + (n - tot) \<longrightarrow> mapped cfg st ip (pos div BSIZE cfg)"
  shows "readi_loop cfg st ip dst off n tot =
         Inr (\<lambda>k. if tot \<le> k \<and> k < n then file_byte cfg st ip (off + (k - tot)) else dst k, st)"
  using assms
proof (induction cfg st ip dst off n tot rule: readi_loop.induct)
  case (1 cfg st ip dst off n tot)
  show ?case
  proof (cases "tot < n")
    case False
    then have "(\<lambda>k. if tot \<le> k \<and> k < n then file_byte cfg st ip (off + (k - tot)) else dst k) = dst"
      by (auto simp: fun_eq_iff)
    with False show ?thesis by (simp add: readi_loop.simps [of cfg st ip dst off n tot])
  next
    case True
    from "1.prems"(1) have nz: "BSIZE cfg \<noteq> 0" and pos: "0 < BSIZE cfg"
      by (simp_all add: config_ok_def)
    define m where "m = min (n - tot) (BSIZE cfg - off mod BSIZE cfg)"
    have wrap: "(off + m) mod 2 ^ 32 = off + m"
      unfolding m_def using "1.prems"(1) True "1.prems"(3) by (rule chunk_no_wrap)
    from True "1.prems"(4) have mp: "mapped cfg st ip (off div BSIZE cfg)" by simp
    from block_in_range [OF "1.prems"(1) True "1.prems"(3)] mp
    have b: "bmap cfg st ip (off div BSIZE cfg) = Inr (baddr cfg st ip (off div BSIZE cfg), st)"
      by (rule bmap_mapped)
    let ?data = "bread st (dev (icache st ip)) (baddr cfg st ip (off div BSIZE cfg))"
    let ?dst1 = "\<lambda>k. if tot \<le> k \<and> k < tot + m then ?data (off mod BSIZE cfg + (k - tot)) else dst k"
    have eq: "readi_loop cfg st ip dst off n tot = readi_loop cfg st ip ?dst1 (off + m) n (tot + m)"
      unfolding m_def using True nz b wrap [unfolded m_def]
      by (simp add: readi_loop.simps [of cfg st ip dst off n tot] Let_def)
    from True have mle: "m \<le> n - tot" and mB: "m \<le> BSIZE cfg - off mod BSIZE cfg"
      by (simp_all add: m_def)
    from mle True have le: "tot + m \<le> n" by linarith
    from mle True "1.prems"(3) have bd: "off + m + (n - (tot + m)) \<le> MAXFILE cfg * BSIZE cfg"
      by linarith
    have mp': "\<forall>pos. off + m \<le> pos \<and> pos < off + m + (n - (tot + m))
                 \<longrightarrow> mapped cfg st ip (pos div BSIZE cfg)"
    proof (intro allI impI)
      fix pos assume "off + m \<le> pos \<and> pos < off + m + (n - (tot + m))"
      with mle True have "off \<le> pos \<and> pos < off + (n - tot)" by linarith
      with "1.prems"(4) show "mapped cfg st ip (pos div BSIZE cfg)" by blast
    qed
    note IH = "1.IH" [OF True nz b refl refl refl, folded m_def, unfolded wrap,
        OF "1.prems"(1) le bd mp']
    have fe: "(\<lambda>k. if tot + m \<le> k \<and> k < n then file_byte cfg st ip (off + m + (k - (tot + m))) else ?dst1 k)
          = (\<lambda>k. if tot \<le> k \<and> k < n then file_byte cfg st ip (off + (k - tot)) else dst k)"
    proof
      fix k
      show "(if tot + m \<le> k \<and> k < n then file_byte cfg st ip (off + m + (k - (tot + m))) else ?dst1 k)
          = (if tot \<le> k \<and> k < n then file_byte cfg st ip (off + (k - tot)) else dst k)"
      proof (cases "tot \<le> k \<and> k < tot + m")
        case False
        then show ?thesis using le by auto
      next
        case True
        then have j: "k - tot < BSIZE cfg - off mod BSIZE cfg" using mB by linarith
        from True le have "?dst1 k = ?data (off mod BSIZE cfg + (k - tot))" by simp
        also have "\<dots> = file_byte cfg st ip (off + (k - tot))"
          by (simp add: file_byte_def chunk_same_block [OF pos j])
        finally show ?thesis using True le by auto
      qed
    qed
    from IH eq have "readi_loop cfg st ip dst off n tot
        = Inr (\<lambda>k. if tot + m \<le> k \<and> k < n then file_byte cfg st ip (off + m + (k - (tot + m))) else ?dst1 k, st)"
      by (simp only:)
    then show ?thesis by (simp only: fe)
  qed
qed


lemma readi_loop_general:
  assumes "config_ok cfg" and "tot \<le> n" and "off + (n - tot) \<le> MAXFILE cfg * BSIZE cfg"
  shows "case readi_loop cfg st ip dst off n tot of
           Inl e \<Rightarrow> e = Panic ''balloc: out of blocks'' \<or> e = Diverges
         | Inr (dst', st') \<Rightarrow> (\<forall>k. k < tot \<or> n \<le> k \<longrightarrow> dst' k = dst k)"
  using assms
proof (induction cfg st ip dst off n tot rule: readi_loop.induct)
  case (1 cfg st ip dst off n tot)
  show ?case
  proof (cases "tot < n")
    case False
    then show ?thesis by (simp add: readi_loop.simps [of cfg st ip dst off n tot])
  next
    case True
    from "1.prems"(1) have nz: "BSIZE cfg \<noteq> 0" by (simp add: config_ok_def)
    define m where "m = min (n - tot) (BSIZE cfg - off mod BSIZE cfg)"
    have wrap: "(off + m) mod 2 ^ 32 = off + m"
      unfolding m_def using "1.prems"(1) True "1.prems"(3) by (rule chunk_no_wrap)
    show ?thesis
    proof (cases "bmap cfg st ip (off div BSIZE cfg)")
      case (Inl e)
      from block_in_range [OF "1.prems"(1) True "1.prems"(3)] Inl "1.prems"(1)
      have "e = Panic ''balloc: out of blocks'' \<or> e = Diverges" by (rule bmap_halt [rotated 1])
      with Inl True nz show ?thesis by (simp add: readi_loop.simps [of cfg st ip dst off n tot])
    next
      case (Inr x)
      obtain a st1 where x: "x = (a, st1)" by (cases x)
      from Inr x have b: "bmap cfg st ip (off div BSIZE cfg) = Inr (a, st1)" by simp
      let ?data = "bread st1 (dev (icache st1 ip)) a"
      let ?dst1 = "\<lambda>k. if tot \<le> k \<and> k < tot + m then ?data (off mod BSIZE cfg + (k - tot)) else dst k"
      have eq: "readi_loop cfg st ip dst off n tot = readi_loop cfg st1 ip ?dst1 (off + m) n (tot + m)"
        unfolding m_def using True nz b wrap [unfolded m_def]
        by (simp add: readi_loop.simps [of cfg st ip dst off n tot] Let_def)
      from True have mle: "m \<le> n - tot" by (simp add: m_def)
      from mle True have le: "tot + m \<le> n" by linarith
      from mle True "1.prems"(3) have bd: "off + m + (n - (tot + m)) \<le> MAXFILE cfg * BSIZE cfg"
        by linarith
      note IH = "1.IH" [OF True nz b refl refl refl, folded m_def, unfolded wrap,
          OF "1.prems"(1) le bd]
      show ?thesis
      proof (cases "readi_loop cfg st1 ip ?dst1 (off + m) n (tot + m)")
        case (Inl e)
        with IH eq show ?thesis by simp
      next
        case (Inr y)
        obtain dst' st' where y: "y = (dst', st')" by (cases y)
        from IH Inr y have "\<forall>k. k < tot + m \<or> n \<le> k \<longrightarrow> dst' k = ?dst1 k" by simp
        with le have "\<forall>k. k < tot \<or> n \<le> k \<longrightarrow> dst' k = dst k" by auto
        with eq Inr y show ?thesis by simp
      qed
    qed
  qed
qed

definition readi_len :: "fs_state \<Rightarrow> nat \<Rightarrow> nat \<Rightarrow> nat \<Rightarrow> nat" where
  "readi_len st ip off n = min n (size' (icache st ip) - off)"

lemma readi_unfold:
  assumes "type (icache st ip) \<noteq> T_DEV cfg" and "off \<le> size' (icache st ip)"
    and "off + n < 2 ^ 32"
  shows "readi cfg st ip dst off n =
         (case readi_loop cfg st ip dst off (readi_len st ip off n) 0 of
            Inl e \<Rightarrow> Inl e
          | Inr (dst1, st1) \<Rightarrow> Inr (to_int (readi_len st ip off n), dst1, st1))"
proof -
  from assms(3) have ovm: "(off + n) mod 2 ^ 32 = off + n" by simp
  from assms(2) ovm have c: "\<not> (off > size' (icache st ip) \<or> (off + n) mod 2 ^ 32 < off)"
    by simp
  have cl: "(if (off + n) mod 2 ^ 32 > size' (icache st ip) then size' (icache st ip) - off else n)
            = readi_len st ip off n"
  proof (cases "off + n > size' (icache st ip)")
    case True
    with assms(2) have "min n (size' (icache st ip) - off) = size' (icache st ip) - off"
      by linarith
    with True show ?thesis by (simp only: ovm readi_len_def if_True)
  next
    case False
    with assms(2) have "min n (size' (icache st ip) - off) = n" by linarith
    with False show ?thesis by (simp only: ovm readi_len_def if_False)
  qed
  show ?thesis by (simp only: readi_def Let_def assms(1) c if_False cl)
qed


lemma readi_fails:
  assumes "type (icache st ip) \<noteq> T_DEV cfg" and "off < 2 ^ 32" and "n < 2 ^ 32"
    and "size' (icache st ip) < off \<or> 2 ^ 32 \<le> off + n"
  shows "readi cfg st ip dst off n = Inr (- 1, dst, st)"
proof -
  from assms(4) wraps_iff [OF assms(2,3)]
  have "off > size' (icache st ip) \<or> (off + n) mod 2 ^ 32 < off" by blast
  with assms(1) show ?thesis by (simp only: readi_def Let_def if_True if_False)
qed

text \<open>
  C4. Let the inode not be a device, its size within the maximum file size, and the
  offset and the length 32-bit values. \<^verbatim>\<open>readi\<close> returns \<open>-1\<close>, leaving the buffer and the
  state as they were, if the offset exceeds the size or offset plus length overflows
  32 bits. Otherwise the only way it does not return is an exhausted block allocator
  (which panics, or scans for ever once its counter wraps), and when it returns, the result is \<open>min n (size - off)\<close> and the buffer is
  unchanged from that index on. If moreover every block of the byte range is mapped
  (the file has no hole there), \<^verbatim>\<open>readi\<close> does return, leaves the state as it was, and
  the first \<open>min n (size - off)\<close> bytes of the buffer are the bytes of the file from the
  offset on.
\<close>

theorem readi_result:
  assumes "config_ok cfg" and "type (icache st ip) \<noteq> T_DEV cfg"
    and "off < 2 ^ 32" and "n < 2 ^ 32"
    and "size' (icache st ip) \<le> MAXFILE cfg * BSIZE cfg"
  shows "if size' (icache st ip) < off \<or> 2 ^ 32 \<le> off + n
         then readi cfg st ip dst off n = Inr (- 1, dst, st)
         else (case readi cfg st ip dst off n of
                 Inl e \<Rightarrow> e = Panic ''balloc: out of blocks'' \<or> e = Diverges
               | Inr (r, dst', st') \<Rightarrow>
                   r = int (min n (size' (icache st ip) - off)) \<and>
                   (\<forall>k \<ge> min n (size' (icache st ip) - off). dst' k = dst k))
            \<and> ((\<forall>pos. off \<le> pos \<and> pos < off + min n (size' (icache st ip) - off)
                      \<longrightarrow> mapped cfg st ip (pos div BSIZE cfg)) \<longrightarrow>
                 readi cfg st ip dst off n =
                   Inr (int (min n (size' (icache st ip) - off)),
                        \<lambda>k. if k < min n (size' (icache st ip) - off)
                            then file_byte cfg st ip (off + k) else dst k,
                        st))"
proof (cases "size' (icache st ip) < off \<or> 2 ^ 32 \<le> off + n")
  case True
  from readi_fails [OF assms(2,3,4) True] True show ?thesis by (simp only: if_True)
next
  case False
  then have off: "off \<le> size' (icache st ip)" and ov: "off + n < 2 ^ 32" by simp_all
  define n1 where "n1 = readi_len st ip off n"
  from off assms(5) have b: "off + (n1 - 0) \<le> MAXFILE cfg * BSIZE cfg"
    unfolding n1_def readi_len_def by linarith
  from assms(1) b have "n1 < 2 ^ 31" by (simp add: config_ok_def)
  then have ti: "to_int n1 = int n1" by (rule to_int_small)
  note U = readi_unfold [OF assms(2) off ov, where dst = dst, folded n1_def, unfolded ti]
  note G = readi_loop_general [OF assms(1) le0 b, where st = st and ip = ip and dst = dst]
  have 1: "case readi cfg st ip dst off n of
             Inl e \<Rightarrow> e = Panic ''balloc: out of blocks'' \<or> e = Diverges
           | Inr (r, dst', st') \<Rightarrow> r = int n1 \<and> (\<forall>k \<ge> n1. dst' k = dst k)"
  proof (cases "readi_loop cfg st ip dst off n1 0")
    case (Inl e)
    with G U show ?thesis by simp
  next
    case (Inr x)
    obtain dst' st' where "x = (dst', st')" by (cases x)
    with G U Inr show ?thesis by simp
  qed
  have 2: "readi cfg st ip dst off n =
             Inr (int n1, \<lambda>k. if k < n1 then file_byte cfg st ip (off + k) else dst k, st)"
    if "\<forall>pos. off \<le> pos \<and> pos < off + n1 \<longrightarrow> mapped cfg st ip (pos div BSIZE cfg)"
  proof -
    from that have "\<forall>pos. off \<le> pos \<and> pos < off + (n1 - 0) \<longrightarrow> mapped cfg st ip (pos div BSIZE cfg)"
      by simp
    from readi_loop_mapped [OF assms(1) le0 b this, where dst = dst] U show ?thesis
      by (simp cong: if_cong)
  qed
  from 1 2 False show ?thesis
    unfolding n1_def readi_len_def by (simp only: if_False) blast
qed


theorem readi_result_witness:
  "config_ok xv6 \<and> type (icache st_file 0) \<noteq> T_DEV xv6
   \<and> size' (icache st_file 0) \<le> MAXFILE xv6 * BSIZE xv6
   \<and> (\<exists>dst'. readi xv6 st_file 0 (\<lambda>k. 255) 8 5 = Inr (2, dst', st_file)
         \<and> dst' 0 = 8 \<and> dst' 1 = 9 \<and> dst' 2 = 255)
   \<and> readi xv6 st_file 0 (\<lambda>k. 255) 11 5 = Inr (- 1, \<lambda>k. 255, st_file)"
proof -
  have h: "type (icache st_file 0) \<noteq> T_DEV xv6" "size' (icache st_file 0) \<le> MAXFILE xv6 * BSIZE xv6"
    by (simp_all add: st_file_def file_inode_def xv6_def MAXFILE_def)
  have m: "\<forall>pos. 8 \<le> pos \<and> pos < 8 + min 5 (size' (icache st_file 0) - 8)
             \<longrightarrow> mapped xv6 st_file 0 (pos div BSIZE xv6)"
    by (simp add: st_file_def file_inode_def xv6_def mapped_def baddr_def)
  have f: "file_byte xv6 st_file 0 8 = 8" "file_byte xv6 st_file 0 9 = 9"
    by (simp_all add: file_byte_def baddr_def bread_def st_file_def file_inode_def xv6_def)
  from readi_result [OF xv6_ok h(1) _ _ h(2), of 8 5 "\<lambda>k. 255"] m
  have "readi xv6 st_file 0 (\<lambda>k. 255) 8 5 =
          Inr (2, \<lambda>k. if k < 2 then file_byte xv6 st_file 0 (8 + k) else 255, st_file)"
    by (simp add: st_file_def file_inode_def)
  with f have "\<exists>dst'. readi xv6 st_file 0 (\<lambda>k. 255) 8 5 = Inr (2, dst', st_file)
         \<and> dst' 0 = 8 \<and> dst' 1 = 9 \<and> dst' 2 = 255" by simp
  moreover from readi_result [OF xv6_ok h(1) _ _ h(2), of 11 5 "\<lambda>k. 255"]
  have "readi xv6 st_file 0 (\<lambda>k. 255) 11 5 = Inr (- 1, \<lambda>k. 255, st_file)"
    by (simp add: st_file_def file_inode_def)
  ultimately show ?thesis using h xv6_ok by blast
qed



lemma four_Suc: "(4::nat) = Suc (Suc (Suc (Suc 0)))"
  by simp

lemma get_le_2: "get_le 2 d p = unat (d p) + 256 * unat (d (Suc p))"
  by (subst Suc_1 [symmetric], subst One_nat_def) simp

lemma get_le_4:
  "get_le 4 d p = unat (d p) + 256 * (unat (d (Suc p)) + 256 * (unat (d (Suc (Suc p)))
                    + 256 * unat (d (Suc (Suc (Suc p))))))"
  by (subst four_Suc) simp

lemma put_le_2: "put_le 2 v d p = d(p := of_nat v, Suc p := of_nat (v div 256))"
  by (subst Suc_1 [symmetric], subst One_nat_def) simp

lemma put_le_4:
  "put_le 4 v d p = d(p := of_nat v, Suc p := of_nat (v div 256),
                      Suc (Suc p) := of_nat (v div 256 div 256),
                      Suc (Suc (Suc p)) := of_nat (v div 256 div 256 div 256))"
  by (subst four_Suc) simp

lemmas le_eval = get_le_2 get_le_4 put_le_2 put_le_4


subsection \<open>Allocating, freeing and allocating again\<close>

text \<open>
  Bit \<open>k\<close> of the block bitmap, as \<^verbatim>\<open>bfree\<close> locates it, and the bitmap in which it has
  been set.
\<close>

definition bitmap_bit :: "config \<Rightarrow> fs_state \<Rightarrow> nat \<Rightarrow> nat \<Rightarrow> nat \<Rightarrow> bool" where
  "bitmap_bit cfg st d nin k \<longleftrightarrow>
     bread st d (BBLOCK cfg k nin) ((k mod BPB cfg) div 8)
       AND push_bit ((k mod BPB cfg) mod 8) 1 \<noteq> 0"

definition in_use :: "config \<Rightarrow> fs_state \<Rightarrow> nat \<Rightarrow> nat \<Rightarrow> bool" where
  "in_use cfg st d k = bitmap_bit cfg st d (sb_ninodes (readsb cfg st d)) k"


lemma mask_nz: "(push_bit (n mod 8) 1 :: byte) \<noteq> 0"
  by simp






















subsection \<open>Releasing the last reference of an unlinked inode\<close>

lemma bfree_spec:
  assumes "config_ok cfg"
  shows "case bfree cfg st d b of
           Inl e \<Rightarrow> e = Panic ''freeing free block''
         | Inr st' \<Rightarrow> icache st' = icache st \<and> trace st' = trace st"
  using assms by (simp add: bfree_def bzero_def config_ok_def Let_def)

lemma itrunc_direct_spec:
  assumes "config_ok cfg"
  shows "case itrunc_direct cfg st ip k of
           Inl e \<Rightarrow> e = Panic ''freeing free block''
         | Inr st' \<Rightarrow> trace st' = trace st \<and>
             icache st' = (icache st)(ip := (icache st ip)\<lparr>addrs :=
               (\<lambda>j. if k \<le> j \<and> j < NDIRECT cfg then 0 else addrs (icache st ip) j)\<rparr>)"
  using assms
proof (induction cfg st ip k rule: itrunc_direct.induct)
  case (1 cfg st ip k)
  show ?case
  proof (cases "k < NDIRECT cfg")
    case False
    then have "(\<lambda>j. if k \<le> j \<and> j < NDIRECT cfg then 0 else addrs (icache st ip) j)
               = addrs (icache st ip)" by (auto simp: fun_eq_iff)
    with False show ?thesis by (simp add: itrunc_direct.simps [of cfg st ip k])
  next
    case True
    show ?thesis
    proof (cases "addrs (icache st ip) k \<noteq> 0")
      case False
      with True have eq: "itrunc_direct cfg st ip k = itrunc_direct cfg st ip (Suc k)"
        by (simp add: itrunc_direct.simps [of cfg st ip k])
      have f: "(\<lambda>j. if Suc k \<le> j \<and> j < NDIRECT cfg then 0 else addrs (icache st ip) j)
          = (\<lambda>j. if k \<le> j \<and> j < NDIRECT cfg then 0 else addrs (icache st ip) j)"
      proof
        fix j
        show "(if Suc k \<le> j \<and> j < NDIRECT cfg then 0 else addrs (icache st ip) j)
          = (if k \<le> j \<and> j < NDIRECT cfg then 0 else addrs (icache st ip) j)"
          using False by (cases "j = k") auto
      qed
      from "1.IH"(2) [OF True False "1.prems"] show ?thesis
        unfolding eq f .
    next
      case nz: True
      show ?thesis
      proof (cases "bfree cfg st (dev (icache st ip)) (addrs (icache st ip) k)")
        case (Inl e)
        with bfree_spec [OF "1.prems", of st "dev (icache st ip)" "addrs (icache st ip) k"]
        have "e = Panic ''freeing free block''" by simp
        with Inl True nz show ?thesis by (simp add: itrunc_direct.simps [of cfg st ip k])
      next
        case (Inr st1)
        with bfree_spec [OF "1.prems", of st "dev (icache st ip)" "addrs (icache st ip) k"]
        have ic: "icache st1 = icache st" and tr: "trace st1 = trace st" by simp_all
        let ?st2 = "set_addr st1 ip k 0"
        from Inr True nz have eq: "itrunc_direct cfg st ip k = itrunc_direct cfg ?st2 ip (Suc k)"
          by (simp add: itrunc_direct.simps [of cfg st ip k])
        have f: "(icache ?st2)(ip := (icache ?st2 ip)\<lparr>addrs :=
               (\<lambda>j. if Suc k \<le> j \<and> j < NDIRECT cfg then 0 else addrs (icache ?st2 ip) j)\<rparr>)
             = (icache st)(ip := (icache st ip)\<lparr>addrs :=
               (\<lambda>j. if k \<le> j \<and> j < NDIRECT cfg then 0 else addrs (icache st ip) j)\<rparr>)"
          using True by (auto simp: set_addr_def ic fun_eq_iff le_Suc_eq)
        have t: "trace ?st2 = trace st" by (simp add: set_addr_def tr)
        from "1.IH"(1) [OF True nz Inr "1.prems"] show ?thesis
          unfolding eq f t .
      qed
    qed
  qed
qed

lemma itrunc_indirect_spec:
  assumes "config_ok cfg"
  shows "case itrunc_indirect cfg st d a j of
           Inl e \<Rightarrow> e = Panic ''freeing free block''
         | Inr st' \<Rightarrow> trace st' = trace st \<and> icache st' = icache st"
  using assms
proof (induction cfg st d a j rule: itrunc_indirect.induct)
  case (1 cfg st d a j)
  show ?case
  proof (cases "j < NINDIRECT cfg")
    case False
    then show ?thesis by (simp add: itrunc_indirect.simps [of cfg st d a j])
  next
    case True
    show ?thesis
    proof (cases "get_le 4 a (4 * j) \<noteq> 0")
      case False
      with True have eq: "itrunc_indirect cfg st d a j = itrunc_indirect cfg st d a (Suc j)"
        by (simp add: itrunc_indirect.simps [of cfg st d a j])
      from "1.IH"(2) [OF True False "1.prems"] show ?thesis unfolding eq .
    next
      case nz: True
      show ?thesis
      proof (cases "bfree cfg st d (get_le 4 a (4 * j))")
        case (Inl e)
        with bfree_spec [OF "1.prems", of st d "get_le 4 a (4 * j)"]
        have "e = Panic ''freeing free block''" by simp
        with Inl True nz show ?thesis by (simp add: itrunc_indirect.simps [of cfg st d a j])
      next
        case (Inr st1)
        with bfree_spec [OF "1.prems", of st d "get_le 4 a (4 * j)"]
        have ic: "icache st1 = icache st" and tr: "trace st1 = trace st" by simp_all
        from Inr True nz have eq: "itrunc_indirect cfg st d a j = itrunc_indirect cfg st1 d a (Suc j)"
          by (simp add: itrunc_indirect.simps [of cfg st d a j])
        from "1.IH"(1) [OF True nz Inr "1.prems"] show ?thesis
          unfolding eq ic tr .
      qed
    qed
  qed
qed


definition truncated :: "config \<Rightarrow> inode \<Rightarrow> inode" where
  "truncated cfg i = i\<lparr>addrs := (\<lambda>j. if j \<le> NDIRECT cfg then 0 else addrs i j), size' := 0\<rparr>"

lemma itrunc_blocks:
  assumes ok: "config_ok cfg"
  shows "case (case itrunc_direct cfg st ip 0 of
           Inl e \<Rightarrow> Inl e
         | Inr st1 \<Rightarrow>
             (if addrs (icache st1 ip) (NDIRECT cfg) \<noteq> 0 then
                let d = dev (icache st1 ip); ind = addrs (icache st1 ip) (NDIRECT cfg) in
                case itrunc_indirect cfg st1 d (bread st1 d ind) 0 of
                  Inl e \<Rightarrow> Inl e
                | Inr st2 \<Rightarrow>
                    (case bfree cfg st2 d ind of
                       Inl e \<Rightarrow> Inl e
                     | Inr st3 \<Rightarrow> Inr (set_addr st3 ip (NDIRECT cfg) 0))
              else Inr st1)) of
           Inl e \<Rightarrow> e = Panic ''freeing free block''
         | Inr st4 \<Rightarrow> trace st4 = trace st \<and>
             icache st4 = (icache st)(ip := (icache st ip)\<lparr>addrs :=
               (\<lambda>j. if j \<le> NDIRECT cfg then 0 else addrs (icache st ip) j)\<rparr>)"
proof (cases "itrunc_direct cfg st ip 0")
  case (Inl e)
  with itrunc_direct_spec [OF ok, of st ip 0] show ?thesis by simp
next
  case (Inr st1)
  with itrunc_direct_spec [OF ok, of st ip 0]
  have t1: "trace st1 = trace st"
    and i1: "icache st1 = (icache st)(ip := (icache st ip)\<lparr>addrs :=
               (\<lambda>j. if j < NDIRECT cfg then 0 else addrs (icache st ip) j)\<rparr>)"
    by simp_all
  let ?d = "dev (icache st1 ip)" and ?ind = "addrs (icache st1 ip) (NDIRECT cfg)"
  let ?goal = "(\<lambda>j. if j \<le> NDIRECT cfg then 0 else addrs (icache st ip) j)"
  show ?thesis
  proof (cases "?ind \<noteq> 0")
    case False
    with i1 have "(\<lambda>j. if j < NDIRECT cfg then 0 else addrs (icache st ip) j) = ?goal"
      by (auto simp: fun_eq_iff le_less)
    with i1 have "icache st1 = (icache st)(ip := (icache st ip)\<lparr>addrs := ?goal\<rparr>)"
      by (simp only:)
    with Inr False t1 show ?thesis by simp
  next
    case True
    show ?thesis
    proof (cases "itrunc_indirect cfg st1 ?d (bread st1 ?d ?ind) 0")
      case (Inl e)
      with itrunc_indirect_spec [OF ok, of st1 ?d "bread st1 ?d ?ind" 0] Inr True
      show ?thesis by (simp add: Let_def)
    next
      case st2: (Inr st2)
      with itrunc_indirect_spec [OF ok, of st1 ?d "bread st1 ?d ?ind" 0]
      have t2: "trace st2 = trace st1" and i2: "icache st2 = icache st1" by simp_all
      show ?thesis
      proof (cases "bfree cfg st2 ?d ?ind")
        case (Inl e)
        with bfree_spec [OF ok, of st2 ?d ?ind] Inr True st2
        show ?thesis by (simp add: Let_def)
      next
        case st3: (Inr st3)
        with bfree_spec [OF ok, of st2 ?d ?ind]
        have t3: "trace st3 = trace st2" and i3: "icache st3 = icache st2" by simp_all
        have "icache (set_addr st3 ip (NDIRECT cfg) 0)
              = (icache st)(ip := (icache st ip)\<lparr>addrs := ?goal\<rparr>)"
          by (auto simp: set_addr_def i3 i2 i1 fun_eq_iff le_less)
        moreover have "trace (set_addr st3 ip (NDIRECT cfg) 0) = trace st"
          by (simp add: set_addr_def t3 t2 t1)
        ultimately show ?thesis using Inr True st2 st3 by (simp add: Let_def)
      qed
    qed
  qed
qed

lemma itrunc_spec:
  assumes ok: "config_ok cfg"
  shows "case itrunc cfg st ip of
           Inl e \<Rightarrow> e = Panic ''freeing free block''
         | Inr st' \<Rightarrow>
             trace st' = trace st @ [Itrunc ip, Iupdate ip (type (icache st ip))] \<and>
             icache st' = (icache st)(ip := truncated cfg (icache st ip)) \<and>
             disk_type cfg st' (dev (icache st ip)) (inum (icache st ip)) = type (icache st ip) \<and>
             disk_size cfg st' (dev (icache st ip)) (inum (icache st ip)) = 0 \<and>
             (\<forall>k \<le> NDIRECT cfg. disk_addr cfg st' (dev (icache st ip)) (inum (icache st ip)) k = 0)"
proof -
  let ?st0 = "st\<lparr>trace := trace st @ [Itrunc ip]\<rparr>"
  let ?mid = "case itrunc_direct cfg ?st0 ip 0 of
           Inl e \<Rightarrow> Inl e
         | Inr st1 \<Rightarrow>
             (if addrs (icache st1 ip) (NDIRECT cfg) \<noteq> 0 then
                let d = dev (icache st1 ip); ind = addrs (icache st1 ip) (NDIRECT cfg) in
                case itrunc_indirect cfg st1 d (bread st1 d ind) 0 of
                  Inl e \<Rightarrow> Inl e
                | Inr st2 \<Rightarrow>
                    (case bfree cfg st2 d ind of
                       Inl e \<Rightarrow> Inl e
                     | Inr st3 \<Rightarrow> Inr (set_addr st3 ip (NDIRECT cfg) 0))
              else Inr st1)"
  have u: "itrunc cfg st ip =
           (case ?mid of Inl e \<Rightarrow> Inl e
            | Inr st4 \<Rightarrow> iupdate cfg (upd_inode st4 ip (\<lambda>i. i\<lparr>size' := 0\<rparr>)) ip)"
    by (simp add: itrunc_def Let_def split: sum.splits)
  from ok have ipb: "0 < IPB cfg" by (simp add: config_ok_def)
  show ?thesis
  proof (cases ?mid)
    case (Inl e)
    with itrunc_blocks [OF ok, of ?st0 ip] u show ?thesis by simp
  next
    case (Inr st4)
    with itrunc_blocks [OF ok, of ?st0 ip]
    have t4: "trace st4 = trace st @ [Itrunc ip]"
      and i4: "icache st4 = (icache st)(ip := (icache st ip)\<lparr>addrs :=
               (\<lambda>j. if j \<le> NDIRECT cfg then 0 else addrs (icache st ip) j)\<rparr>)"
      by (simp_all cong: if_cong)
    let ?st5 = "upd_inode st4 ip (\<lambda>i. i\<lparr>size' := 0\<rparr>)"
    have i5: "icache ?st5 = (icache st)(ip := truncated cfg (icache st ip))"
      by (simp add: upd_inode_def i4 truncated_def)
    have t5: "trace ?st5 = trace st @ [Itrunc ip]" by (simp add: upd_inode_def t4)
    from iupdate_spec [OF ipb, of ?st5 ip] obtain st'
      where r: "iupdate cfg ?st5 ip = Inr st'" and ic: "icache st' = icache ?st5"
        and tr: "trace st' = trace ?st5 @ [Iupdate ip (type (icache ?st5 ip))]"
        and dt: "disk_type cfg st' (dev (icache ?st5 ip)) (inum (icache ?st5 ip)) = type (icache ?st5 ip)"
        and ds: "disk_size cfg st' (dev (icache ?st5 ip)) (inum (icache ?st5 ip))
                 = size' (icache ?st5 ip) mod 2 ^ 32"
        and da: "\<forall>k \<le> NDIRECT cfg. disk_addr cfg st' (dev (icache ?st5 ip)) (inum (icache ?st5 ip)) k
                 = addrs (icache ?st5 ip) k mod 2 ^ 32"
      by blast
    have f: "dev (icache ?st5 ip) = dev (icache st ip)" "inum (icache ?st5 ip) = inum (icache st ip)"
      "type (icache ?st5 ip) = type (icache st ip)" "size' (icache ?st5 ip) = 0"
      "\<And>k. k \<le> NDIRECT cfg \<Longrightarrow> addrs (icache ?st5 ip) k = 0"
      by (simp_all add: i5 truncated_def)
    from tr have "trace st' = trace st @ [Itrunc ip, Iupdate ip (type (icache st ip))]"
      by (simp add: t5 f)
    moreover from ic have "icache st' = (icache st)(ip := truncated cfg (icache st ip))"
      by (simp only: i5)
    moreover from dt have "disk_type cfg st' (dev (icache st ip)) (inum (icache st ip)) = type (icache st ip)"
      by (simp only: f)
    moreover from ds have "disk_size cfg st' (dev (icache st ip)) (inum (icache st ip)) = 0"
      by (simp add: f)
    moreover from da have "\<forall>k \<le> NDIRECT cfg. disk_addr cfg st' (dev (icache st ip)) (inum (icache st ip)) k = 0"
      by (simp add: f)
    ultimately show ?thesis using u Inr r by simp
  qed
qed



lemma itrunc_direct_skip:
  "\<forall>j. k \<le> j \<and> j < NDIRECT cfg \<longrightarrow> addrs (icache st ip) j = 0 \<Longrightarrow>
   itrunc_direct cfg st ip k = Inr st"
proof (induction cfg st ip k rule: itrunc_direct.induct)
  case (1 cfg st ip k)
  show ?case
  proof (cases "k < NDIRECT cfg")
    case False
    then show ?thesis by (simp add: itrunc_direct.simps [of cfg st ip k])
  next
    case True
    with "1.prems" have z: "\<not> addrs (icache st ip) k \<noteq> 0" by simp
    from "1.prems" have "\<forall>j. Suc k \<le> j \<and> j < NDIRECT cfg \<longrightarrow> addrs (icache st ip) j = 0"
      by simp
    from "1.IH"(2) [OF True z this] True z show ?thesis
      by (simp add: itrunc_direct.simps [of cfg st ip k])
  qed
qed



text \<open>
  What freeing does to the disk. A block is freed when its bit in the bitmap is clear
  and its content is zero. \<^verbatim>\<open>bfree\<close> only clears bits of the disk (it zeroes a block and
  clears a bit of the bitmap), so a block once freed stays freed as long as the
  superblock, which locates the bitmap, is left alone.
\<close>

definition freed :: "config \<Rightarrow> fs_state \<Rightarrow> nat \<Rightarrow> nat \<Rightarrow> bool" where
  "freed cfg st d a \<longleftrightarrow> \<not> in_use cfg st d a \<and> (\<forall>k < BSIZE cfg. disk st (d, a) k = 0)"

definition shrinks :: "config \<Rightarrow> nat \<Rightarrow> fs_state \<Rightarrow> fs_state \<Rightarrow> bool" where
  "shrinks cfg d s s' \<longleftrightarrow>
     readsb cfg s' d = readsb cfg s d
     \<and> (\<forall>x k n. bit (disk s' (d, x) k) n \<longrightarrow> bit (disk s (d, x) k) n)"

lemma shrinks_refl: "shrinks cfg d s s"
  by (simp add: shrinks_def)

lemma shrinks_trans: "shrinks cfg d s s1 \<Longrightarrow> shrinks cfg d s1 s2 \<Longrightarrow> shrinks cfg d s s2"
  by (simp add: shrinks_def)

lemma shrinks_disk:
  "disk s2 = disk s1 \<Longrightarrow> shrinks cfg d s s1 \<Longrightarrow> shrinks cfg d s s2"
  by (simp add: shrinks_def readsb_def bread_def)

lemma in_use_disk: "disk s2 = disk s1 \<Longrightarrow> in_use cfg s2 d a = in_use cfg s1 d a"
  by (simp add: in_use_def bitmap_bit_def readsb_def bread_def)

lemma freed_disk: "disk s2 = disk s1 \<Longrightarrow> freed cfg s2 d a = freed cfg s1 d a"
  by (simp add: freed_def in_use_def bitmap_bit_def readsb_def bread_def)

lemma and_nz_bit:
  fixes v m :: byte
  shows "v AND m \<noteq> 0 \<longleftrightarrow> (\<exists>n. bit v n \<and> bit m n)"
proof
  assume nz: "v AND m \<noteq> 0"
  show "\<exists>n. bit v n \<and> bit m n"
  proof (rule ccontr)
    assume "\<not> (\<exists>n. bit v n \<and> bit m n)"
    then have "v AND m = 0" by (intro bit_word_eqI) (simp add: bit_and_iff)
    with nz show False by simp
  qed
next
  assume "\<exists>n. bit v n \<and> bit m n"
  then obtain n where "bit (v AND m) n" by (auto simp: bit_and_iff)
  then show "v AND m \<noteq> 0" by auto
qed

lemma and_not_and:
  fixes v m :: byte
  shows "(v AND NOT m) AND m = 0"
  by (simp add: and.assoc)

lemma in_use_shrinks:
  assumes "shrinks cfg d s s'" and "in_use cfg s' d a"
  shows "in_use cfg s d a"
proof -
  from assms(1) have sb: "readsb cfg s' d = readsb cfg s d"
    and b: "\<And>x k n. bit (disk s' (d, x) k) n \<Longrightarrow> bit (disk s (d, x) k) n"
    by (simp_all add: shrinks_def)
  from assms(2) show ?thesis
    unfolding in_use_def bitmap_bit_def sb bread_def and_nz_bit using b by blast
qed

lemma zero_shrinks:
  assumes "shrinks cfg d s s'" and "disk s (d, x) k = 0"
  shows "disk s' (d, x) k = 0"
proof -
  from assms(1) have "\<And>n. bit (disk s' (d, x) k) n \<Longrightarrow> bit (disk s (d, x) k) n"
    by (simp add: shrinks_def)
  with assms(2) show ?thesis by (auto simp: bit_eq_iff)
qed

lemma freed_shrinks:
  assumes "shrinks cfg d s s'" and "freed cfg s d a"
  shows "freed cfg s' d a"
  using assms in_use_shrinks [OF assms(1), of a] zero_shrinks [OF assms(1)]
  by (auto simp: freed_def)

lemma bfree_result:
  assumes "bfree cfg s d b = Inr s'"
  shows "\<not> (BPB cfg = 0 \<or> IPB cfg = 0)"
    and "s' = bwrite (bzero cfg s d b) d (BBLOCK cfg b (sb_ninodes (readsb cfg (bzero cfg s d b) d)))
            ((bread (bzero cfg s d b) d (BBLOCK cfg b (sb_ninodes (readsb cfg (bzero cfg s d b) d))))
               ((b mod BPB cfg) div 8 :=
                  bread (bzero cfg s d b) d (BBLOCK cfg b (sb_ninodes (readsb cfg (bzero cfg s d b) d)))
                    ((b mod BPB cfg) div 8) AND NOT (push_bit ((b mod BPB cfg) mod 8) 1)))"
  using assms by (auto simp: bfree_def Let_def split: if_splits)

lemma bfree_shrinks:
  assumes r: "bfree cfg s d b = Inr s'"
    and b1: "b \<noteq> 1" and n1: "BBLOCK cfg b (sb_ninodes (readsb cfg s d)) \<noteq> 1"
  shows "shrinks cfg d s s'" and "freed cfg s' d b"
    and "\<And>x. x \<noteq> b \<Longrightarrow> x \<noteq> BBLOCK cfg b (sb_ninodes (readsb cfg s d))
           \<Longrightarrow> disk s' (d, x) = disk s (d, x)"
proof -
  let ?z = "bzero cfg s d b"
  let ?bno = "BBLOCK cfg b (sb_ninodes (readsb cfg s d))"
  let ?idx = "(b mod BPB cfg) div 8"
  let ?m = "push_bit ((b mod BPB cfg) mod 8) 1 :: byte"
  from b1 have sbz: "readsb cfg ?z d = readsb cfg s d"
    by (simp add: readsb_def bzero_def bread_def bwrite_def)
  from bfree_result(2) [OF r]
  have s': "s' = bwrite ?z d ?bno ((bread ?z d ?bno)(?idx := bread ?z d ?bno ?idx AND NOT ?m))"
    by (simp only: sbz)
  from n1 b1 have sb: "readsb cfg s' d = readsb cfg s d"
    by (simp add: s' readsb_def bzero_def bread_def bwrite_def)
  have ds': "disk s' = (disk ?z)((d, ?bno) :=
      (disk ?z (d, ?bno))(?idx := disk ?z (d, ?bno) ?idx AND NOT ?m))"
    by (simp add: s' bread_def bwrite_def)
  have dz: "disk ?z = (disk s)((d, b) := (\<lambda>k. if k < BSIZE cfg then 0 else disk s (d, b) k))"
    by (simp add: bzero_def bread_def bwrite_def cong: if_cong)
  have bz: "bit (disk ?z (d, x) k) n \<longrightarrow> bit (disk s (d, x) k) n" for x k n
    by (simp add: dz)
  have bits: "bit (disk s' (d, x) k) n \<longrightarrow> bit (disk s (d, x) k) n" for x k n
    by (auto simp: ds' bit_and_iff dest: bz [THEN mp])
  from sb bits show "shrinks cfg d s s'" by (simp add: shrinks_def)
  have "disk s' (d, ?bno) ?idx AND ?m = 0"
    by (simp only: ds' fun_upd_same and_not_and)
  then have "\<not> in_use cfg s' d b"
    by (simp only: in_use_def bitmap_bit_def sb bread_def simp_thms)
  moreover have "\<forall>k < BSIZE cfg. disk s' (d, b) k = 0"
    by (simp add: ds' dz)
  ultimately show "freed cfg s' d b" by (simp add: freed_def)
  show "disk s' (d, x) = disk s (d, x)" if "x \<noteq> b" "x \<noteq> ?bno" for x
    using that by (simp add: ds' dz)
qed


lemma bfree_icache: "bfree cfg s d b = Inr s' \<Longrightarrow> icache s' = icache s"
  by (auto simp: bfree_def Let_def bzero_def split: if_splits)

lemma itrunc_direct_frees:
  assumes "itrunc_direct cfg st ip k = Inr st'"
    and "\<forall>j. k \<le> j \<and> j < NDIRECT cfg \<and> addrs (icache st ip) j \<noteq> 0 \<longrightarrow>
           addrs (icache st ip) j \<noteq> 1
           \<and> BBLOCK cfg (addrs (icache st ip) j)
                (sb_ninodes (readsb cfg st (dev (icache st ip)))) \<noteq> 1"
  shows "shrinks cfg (dev (icache st ip)) st st'
     \<and> (\<forall>j. k \<le> j \<and> j < NDIRECT cfg \<and> addrs (icache st ip) j \<noteq> 0 \<longrightarrow>
            freed cfg st' (dev (icache st ip)) (addrs (icache st ip) j))
     \<and> (\<forall>x. (\<forall>j. k \<le> j \<and> j < NDIRECT cfg \<and> addrs (icache st ip) j \<noteq> 0 \<longrightarrow>
                 x \<noteq> addrs (icache st ip) j
                 \<and> x \<noteq> BBLOCK cfg (addrs (icache st ip) j)
                          (sb_ninodes (readsb cfg st (dev (icache st ip))))) \<longrightarrow>
            disk st' (dev (icache st ip), x) = disk st (dev (icache st ip), x))"
  using assms
proof (induction cfg st ip k rule: itrunc_direct.induct)
  case (1 cfg st ip k)
  let ?d = "dev (icache st ip)"
  let ?nin = "sb_ninodes (readsb cfg st ?d)"
  let ?a = "addrs (icache st ip)"
  show ?case
  proof (cases "k < NDIRECT cfg")
    case False
    with "1.prems"(1) have "st' = st" by (simp add: itrunc_direct.simps [of cfg st ip k])
    with False show ?thesis by (auto simp: shrinks_refl)
  next
    case True
    show ?thesis
    proof (cases "?a k \<noteq> 0")
      case False
      with True "1.prems"(1) have r: "itrunc_direct cfg st ip (Suc k) = Inr st'"
        by (simp add: itrunc_direct.simps [of cfg st ip k])
      from "1.prems"(2) have p: "\<forall>j. Suc k \<le> j \<and> j < NDIRECT cfg \<and> ?a j \<noteq> 0 \<longrightarrow>
           ?a j \<noteq> 1 \<and> BBLOCK cfg (?a j) ?nin \<noteq> 1" by simp
      from "1.IH"(2) [OF True False r p]
      have sh: "shrinks cfg ?d st st'"
        and fr: "\<forall>j. Suc k \<le> j \<and> j < NDIRECT cfg \<and> ?a j \<noteq> 0 \<longrightarrow> freed cfg st' ?d (?a j)"
        and fm: "\<forall>x. (\<forall>j. Suc k \<le> j \<and> j < NDIRECT cfg \<and> ?a j \<noteq> 0 \<longrightarrow>
                 x \<noteq> ?a j \<and> x \<noteq> BBLOCK cfg (?a j) ?nin) \<longrightarrow>
            disk st' (?d, x) = disk st (?d, x)"
        by simp_all
      have "freed cfg st' ?d (?a j)" if "k \<le> j \<and> j < NDIRECT cfg \<and> ?a j \<noteq> 0" for j
      proof (cases "j = k")
        case True
        with that False show ?thesis by simp
      next
        case False
        with that fr show ?thesis by simp
      qed
      moreover have "disk st' (?d, x) = disk st (?d, x)"
        if "\<forall>j. k \<le> j \<and> j < NDIRECT cfg \<and> ?a j \<noteq> 0 \<longrightarrow>
                 x \<noteq> ?a j \<and> x \<noteq> BBLOCK cfg (?a j) ?nin" for x
      proof -
        from that have "\<forall>j. Suc k \<le> j \<and> j < NDIRECT cfg \<and> ?a j \<noteq> 0 \<longrightarrow>
                 x \<noteq> ?a j \<and> x \<noteq> BBLOCK cfg (?a j) ?nin" by simp
        with fm show ?thesis by blast
      qed
      ultimately show ?thesis using sh by blast
    next
      case nz: True
      from True nz "1.prems"(1) obtain st1 where bf: "bfree cfg st ?d (?a k) = Inr st1"
        by (auto simp: itrunc_direct.simps [of cfg st ip k] split: sum.splits)
      let ?st2 = "set_addr st1 ip k 0"
      from True nz bf "1.prems"(1) have r: "itrunc_direct cfg ?st2 ip (Suc k) = Inr st'"
        by (simp add: itrunc_direct.simps [of cfg st ip k])
      from "1.prems"(2) True nz have ok: "?a k \<noteq> 1" "BBLOCK cfg (?a k) ?nin \<noteq> 1" by simp_all
      note b = bfree_shrinks [OF bf ok]
      have ic: "icache st1 = icache st" using bf by (rule bfree_icache)
      have d2: "disk ?st2 = disk st1" by (simp add: set_addr_def)
      have dv: "dev (icache ?st2 ip) = ?d" by (simp add: set_addr_def ic)
      have ad: "addrs (icache ?st2 ip) j = ?a j" if "j \<noteq> k" for j
        using that by (simp add: set_addr_def ic)
      from b(1) have sh2: "shrinks cfg ?d st ?st2" using d2 by (rule shrinks_disk [rotated])
      then have sb2: "readsb cfg ?st2 ?d = readsb cfg st ?d" by (simp add: shrinks_def)
      have p: "\<forall>j. Suc k \<le> j \<and> j < NDIRECT cfg \<and> addrs (icache ?st2 ip) j \<noteq> 0 \<longrightarrow>
           addrs (icache ?st2 ip) j \<noteq> 1
           \<and> BBLOCK cfg (addrs (icache ?st2 ip) j)
                (sb_ninodes (readsb cfg ?st2 (dev (icache ?st2 ip)))) \<noteq> 1"
      proof (intro allI impI)
        fix j assume j: "Suc k \<le> j \<and> j < NDIRECT cfg \<and> addrs (icache ?st2 ip) j \<noteq> 0"
        then have "j \<noteq> k" by simp
        from ad [OF this] j "1.prems"(2)
        show "addrs (icache ?st2 ip) j \<noteq> 1
           \<and> BBLOCK cfg (addrs (icache ?st2 ip) j)
                (sb_ninodes (readsb cfg ?st2 (dev (icache ?st2 ip)))) \<noteq> 1"
          by (simp add: dv sb2)
      qed
      note ih = "1.IH"(1) [OF True nz bf r p, unfolded dv sb2]
      have sh: "shrinks cfg ?d ?st2 st'"
        and fr: "\<forall>j. Suc k \<le> j \<and> j < NDIRECT cfg \<and> addrs (icache ?st2 ip) j \<noteq> 0 \<longrightarrow>
                   freed cfg st' ?d (addrs (icache ?st2 ip) j)"
        and fm: "\<forall>x. (\<forall>j. Suc k \<le> j \<and> j < NDIRECT cfg \<and> addrs (icache ?st2 ip) j \<noteq> 0 \<longrightarrow>
                 x \<noteq> addrs (icache ?st2 ip) j
                 \<and> x \<noteq> BBLOCK cfg (addrs (icache ?st2 ip) j) ?nin) \<longrightarrow>
            disk st' (?d, x) = disk ?st2 (?d, x)"
        using ih by blast+
      from sh2 sh have "shrinks cfg ?d st st'" by (rule shrinks_trans)
      moreover have "freed cfg st' ?d (?a j)" if "k \<le> j \<and> j < NDIRECT cfg \<and> ?a j \<noteq> 0" for j
      proof (cases "j = k")
        case True
        from b(2) have "freed cfg ?st2 ?d (?a k)" by (simp add: freed_disk [OF d2])
        with sh True show ?thesis by (simp add: freed_shrinks)
      next
        case False
        with that have "Suc k \<le> j \<and> j < NDIRECT cfg \<and> addrs (icache ?st2 ip) j \<noteq> 0"
          by (simp add: ad)
        with fr ad [OF False] show ?thesis by auto
      qed
      moreover have "disk st' (?d, x) = disk st (?d, x)"
        if x: "\<forall>j. k \<le> j \<and> j < NDIRECT cfg \<and> ?a j \<noteq> 0 \<longrightarrow>
                 x \<noteq> ?a j \<and> x \<noteq> BBLOCK cfg (?a j) ?nin" for x
      proof -
        have "\<forall>j. Suc k \<le> j \<and> j < NDIRECT cfg \<and> addrs (icache ?st2 ip) j \<noteq> 0 \<longrightarrow>
                 x \<noteq> addrs (icache ?st2 ip) j
                 \<and> x \<noteq> BBLOCK cfg (addrs (icache ?st2 ip) j) ?nin"
        proof (intro allI impI)
          fix j assume j: "Suc k \<le> j \<and> j < NDIRECT cfg \<and> addrs (icache ?st2 ip) j \<noteq> 0"
          then have "j \<noteq> k" by simp
          from ad [OF this] j x
          show "x \<noteq> addrs (icache ?st2 ip) j
                 \<and> x \<noteq> BBLOCK cfg (addrs (icache ?st2 ip) j) ?nin" by simp
        qed
        with fm have "disk st' (?d, x) = disk ?st2 (?d, x)" by blast
        also have "\<dots> = disk st1 (?d, x)" by (simp add: d2)
        also from x True nz have "\<dots> = disk st (?d, x)" by (intro b(3)) auto
        finally show ?thesis .
      qed
      ultimately show ?thesis by blast
    qed
  qed
qed


lemma itrunc_indirect_frees:
  assumes "itrunc_indirect cfg st d a j = Inr st'"
    and "\<forall>i. j \<le> i \<and> i < NINDIRECT cfg \<and> get_le 4 a (4 * i) \<noteq> 0 \<longrightarrow>
           get_le 4 a (4 * i) \<noteq> 1
           \<and> BBLOCK cfg (get_le 4 a (4 * i)) (sb_ninodes (readsb cfg st d)) \<noteq> 1"
  shows "shrinks cfg d st st'
     \<and> (\<forall>i. j \<le> i \<and> i < NINDIRECT cfg \<and> get_le 4 a (4 * i) \<noteq> 0 \<longrightarrow>
            freed cfg st' d (get_le 4 a (4 * i)))"
  using assms
proof (induction cfg st d a j rule: itrunc_indirect.induct)
  case (1 cfg st d a j)
  let ?nin = "sb_ninodes (readsb cfg st d)"
  let ?e = "\<lambda>i. get_le 4 a (4 * i)"
  show ?case
  proof (cases "j < NINDIRECT cfg")
    case False
    with "1.prems"(1) have "st' = st" by (simp add: itrunc_indirect.simps [of cfg st d a j])
    with False show ?thesis by (auto simp: shrinks_refl)
  next
    case True
    show ?thesis
    proof (cases "?e j \<noteq> 0")
      case False
      with True "1.prems"(1) have r: "itrunc_indirect cfg st d a (Suc j) = Inr st'"
        by (simp add: itrunc_indirect.simps [of cfg st d a j])
      from "1.prems"(2) have p: "\<forall>i. Suc j \<le> i \<and> i < NINDIRECT cfg \<and> ?e i \<noteq> 0 \<longrightarrow>
           ?e i \<noteq> 1 \<and> BBLOCK cfg (?e i) ?nin \<noteq> 1" by simp
      note ih = "1.IH"(2) [OF True False r p]
      have "freed cfg st' d (?e i)" if "j \<le> i \<and> i < NINDIRECT cfg \<and> ?e i \<noteq> 0" for i
      proof (cases "i = j")
        case True
        with that False show ?thesis by simp
      next
        case False
        with that ih show ?thesis by simp
      qed
      with ih show ?thesis by blast
    next
      case nz: True
      from True nz "1.prems"(1) obtain st1 where bf: "bfree cfg st d (?e j) = Inr st1"
        by (auto simp: itrunc_indirect.simps [of cfg st d a j] split: sum.splits)
      from True nz bf "1.prems"(1) have r: "itrunc_indirect cfg st1 d a (Suc j) = Inr st'"
        by (simp add: itrunc_indirect.simps [of cfg st d a j])
      from "1.prems"(2) True nz have ok: "?e j \<noteq> 1" "BBLOCK cfg (?e j) ?nin \<noteq> 1" by simp_all
      note b = bfree_shrinks [OF bf ok]
      from b(1) have sb1: "readsb cfg st1 d = readsb cfg st d" by (simp add: shrinks_def)
      from "1.prems"(2) have p: "\<forall>i. Suc j \<le> i \<and> i < NINDIRECT cfg \<and> ?e i \<noteq> 0 \<longrightarrow>
           ?e i \<noteq> 1 \<and> BBLOCK cfg (?e i) (sb_ninodes (readsb cfg st1 d)) \<noteq> 1"
        by (simp add: sb1)
      note ih = "1.IH"(1) [OF True nz bf r p]
      from ih have sh: "shrinks cfg d st1 st'" by blast
      from b(1) sh have "shrinks cfg d st st'" by (rule shrinks_trans)
      moreover have "freed cfg st' d (?e i)" if "j \<le> i \<and> i < NINDIRECT cfg \<and> ?e i \<noteq> 0" for i
      proof (cases "i = j")
        case True
        with sh b(2) show ?thesis by (simp add: freed_shrinks)
      next
        case False
        with that ih show ?thesis by simp
      qed
      ultimately show ?thesis by blast
    qed
  qed
qed

lemma itrunc_indirect_icache:
  "itrunc_indirect cfg st d a j = Inr st' \<Longrightarrow> icache st' = icache st"
proof (induction cfg st d a j rule: itrunc_indirect.induct)
  case (1 cfg st d a j)
  show ?case
  proof (cases "j < NINDIRECT cfg")
    case False
    with "1.prems" show ?thesis by (simp add: itrunc_indirect.simps [of cfg st d a j])
  next
    case True
    show ?thesis
    proof (cases "get_le 4 a (4 * j) \<noteq> 0")
      case False
      with True "1.prems" have "itrunc_indirect cfg st d a (Suc j) = Inr st'"
        by (simp add: itrunc_indirect.simps [of cfg st d a j])
      from "1.IH"(2) [OF True False this] show ?thesis .
    next
      case nz: True
      from True nz "1.prems" obtain st1 where bf: "bfree cfg st d (get_le 4 a (4 * j)) = Inr st1"
        by (auto simp: itrunc_indirect.simps [of cfg st d a j] split: sum.splits)
      from True nz bf "1.prems" have "itrunc_indirect cfg st1 d a (Suc j) = Inr st'"
        by (simp add: itrunc_indirect.simps [of cfg st d a j])
      from "1.IH"(1) [OF True nz bf this] bfree_icache [OF bf] show ?thesis by simp
    qed
  qed
qed

lemma itrunc_direct_icache:
  "itrunc_direct cfg st ip k = Inr st' \<Longrightarrow>
   icache st' = (icache st)(ip := (icache st ip)\<lparr>addrs :=
               (\<lambda>j. if k \<le> j \<and> j < NDIRECT cfg then 0 else addrs (icache st ip) j)\<rparr>)"
proof (induction cfg st ip k rule: itrunc_direct.induct)
  case (1 cfg st ip k)
  show ?case
  proof (cases "k < NDIRECT cfg")
    case False
    then have "(\<lambda>j. if k \<le> j \<and> j < NDIRECT cfg then 0 else addrs (icache st ip) j)
               = addrs (icache st ip)" by (auto simp: fun_eq_iff)
    with False "1.prems" show ?thesis by (simp add: itrunc_direct.simps [of cfg st ip k])
  next
    case True
    show ?thesis
    proof (cases "addrs (icache st ip) k \<noteq> 0")
      case False
      with True "1.prems" have r: "itrunc_direct cfg st ip (Suc k) = Inr st'"
        by (simp add: itrunc_direct.simps [of cfg st ip k])
      have f: "(\<lambda>j. if Suc k \<le> j \<and> j < NDIRECT cfg then 0 else addrs (icache st ip) j)
          = (\<lambda>j. if k \<le> j \<and> j < NDIRECT cfg then 0 else addrs (icache st ip) j)"
      proof
        fix j
        show "(if Suc k \<le> j \<and> j < NDIRECT cfg then 0 else addrs (icache st ip) j)
          = (if k \<le> j \<and> j < NDIRECT cfg then 0 else addrs (icache st ip) j)"
          using False by (cases "j = k") auto
      qed
      from "1.IH"(2) [OF True False r] show ?thesis unfolding f .
    next
      case nz: True
      from True nz "1.prems" obtain st1
        where bf: "bfree cfg st (dev (icache st ip)) (addrs (icache st ip) k) = Inr st1"
        by (auto simp: itrunc_direct.simps [of cfg st ip k] split: sum.splits)
      let ?st2 = "set_addr st1 ip k 0"
      from True nz bf "1.prems" have r: "itrunc_direct cfg ?st2 ip (Suc k) = Inr st'"
        by (simp add: itrunc_direct.simps [of cfg st ip k])
      note ic = bfree_icache [OF bf]
      have f: "(icache ?st2)(ip := (icache ?st2 ip)\<lparr>addrs :=
               (\<lambda>j. if Suc k \<le> j \<and> j < NDIRECT cfg then 0 else addrs (icache ?st2 ip) j)\<rparr>)
             = (icache st)(ip := (icache st ip)\<lparr>addrs :=
               (\<lambda>j. if k \<le> j \<and> j < NDIRECT cfg then 0 else addrs (icache st ip) j)\<rparr>)"
        using True by (auto simp: set_addr_def ic fun_eq_iff le_Suc_eq)
      from "1.IH"(1) [OF True nz bf r] show ?thesis unfolding f .
    qed
  qed
qed

lemma iupdate_disk_other:
  assumes "iupdate cfg s ip = Inr s'"
    and "x \<noteq> (dev (icache s ip), IBLOCK cfg (inum (icache s ip)))"
  shows "disk s' x = disk s x"
  using assms
  by (auto simp: iupdate_def Let_def bwrite_def split: if_splits
           simp del: put_addrs.simps put_le.simps)

lemma freed_frame:
  assumes "freed cfg s d a"
    and "disk s' (d, 1) = disk s (d, 1)"
    and "disk s' (d, a) = disk s (d, a)"
    and "disk s' (d, BBLOCK cfg a (sb_ninodes (readsb cfg s d)))
         = disk s (d, BBLOCK cfg a (sb_ninodes (readsb cfg s d)))"
  shows "freed cfg s' d a"
proof -
  from assms(2) have sb: "readsb cfg s' d = readsb cfg s d" by (simp add: readsb_def bread_def)
  from assms(1,3,4) show ?thesis
    by (simp add: freed_def in_use_def bitmap_bit_def sb bread_def)
qed

lemma iupdate_keeps_freed:
  assumes r: "iupdate cfg s ip = Inr s'"
    and dv: "dev (icache s ip) = d" and ib: "IBLOCK cfg (inum (icache s ip)) = ib"
    and n: "ib \<noteq> 1" "a \<noteq> ib" "BBLOCK cfg a (sb_ninodes (readsb cfg s d)) \<noteq> ib"
    and f: "freed cfg s d a"
  shows "freed cfg s' d a" and "readsb cfg s' d = readsb cfg s d"
proof -
  have o: "disk s' (d, x) = disk s (d, x)" if "x \<noteq> ib" for x
  proof (rule iupdate_disk_other [OF r])
    from that show "(d, x) \<noteq> (dev (icache s ip), IBLOCK cfg (inum (icache s ip)))"
      by (simp only: dv ib prod.inject simp_thms not_False_eq_True)
  qed
  from n(1) have o1: "disk s' (d, 1) = disk s (d, 1)" by (intro o) simp
  then show "readsb cfg s' d = readsb cfg s d" by (simp add: readsb_def bread_def)
  from f o1 o [OF n(2)] o [OF n(3)] show "freed cfg s' d a" by (rule freed_frame)
qed

text \<open>
  The blocks of a file: the blocks the direct addresses name, the blocks the entries of
  the indirect block name, and the indirect block. Modelled from the spec: the data
  region of the device begins after the last bitmap block and ends with the device.
  In a well-formed file system the superblock holds a 32-bit size, the inode number is
  one of the device, and the blocks of a file are blocks of the data region, each named
  once.
\<close>

definition file_blocks :: "config \<Rightarrow> fs_state \<Rightarrow> nat \<Rightarrow> nat list" where
  "file_blocks cfg st ip =
     (let i = icache st ip; ind = addrs i (NDIRECT cfg) in
      filter (\<lambda>a. a \<noteq> 0) (map (addrs i) [0..<NDIRECT cfg]) @
      (if ind = 0 then []
       else filter (\<lambda>a. a \<noteq> 0)
              (map (\<lambda>j. get_le 4 (bread st (dev i) ind) (4 * j)) [0..<NINDIRECT cfg])
            @ [ind]))"

definition data_start :: "config \<Rightarrow> superblock \<Rightarrow> nat" where
  "data_start cfg sb = sb_size sb div BPB cfg + sb_ninodes sb div IPB cfg + 4"

definition data_block :: "config \<Rightarrow> superblock \<Rightarrow> nat \<Rightarrow> bool" where
  "data_block cfg sb a \<longleftrightarrow> data_start cfg sb \<le> a \<and> a < sb_size sb"

definition well_formed :: "config \<Rightarrow> fs_state \<Rightarrow> nat \<Rightarrow> bool" where
  "well_formed cfg st ip \<longleftrightarrow>
     (let i = icache st ip; sb = readsb cfg st (dev i) in
      sb_size sb \<le> 2 ^ 32 \<and> inum i < sb_ninodes sb
      \<and> distinct (file_blocks cfg st ip)
      \<and> (\<forall>a \<in> set (file_blocks cfg st ip). data_block cfg sb a))"

lemma direct_in:
  "k < NDIRECT cfg \<Longrightarrow> addrs (icache st ip) k \<noteq> 0 \<Longrightarrow>
   addrs (icache st ip) k \<in> set (file_blocks cfg st ip)"
  by (simp add: file_blocks_def Let_def)

lemma indirect_in:
  "addrs (icache st ip) (NDIRECT cfg) \<noteq> 0 \<Longrightarrow>
   addrs (icache st ip) (NDIRECT cfg) \<in> set (file_blocks cfg st ip)"
  by (simp add: file_blocks_def Let_def)

lemma entry_in:
  "addrs (icache st ip) (NDIRECT cfg) \<noteq> 0 \<Longrightarrow> j < NINDIRECT cfg \<Longrightarrow>
   get_le 4 (bread st (dev (icache st ip)) (addrs (icache st ip) (NDIRECT cfg))) (4 * j) \<noteq> 0 \<Longrightarrow>
   get_le 4 (bread st (dev (icache st ip)) (addrs (icache st ip) (NDIRECT cfg))) (4 * j)
     \<in> set (file_blocks cfg st ip)"
  by (simp add: file_blocks_def Let_def)

lemma file_blocks_cases:
  assumes "a \<in> set (file_blocks cfg st ip)"
  shows "(\<exists>k < NDIRECT cfg. addrs (icache st ip) k \<noteq> 0 \<and> a = addrs (icache st ip) k)
    \<or> (addrs (icache st ip) (NDIRECT cfg) \<noteq> 0 \<and>
        (a = addrs (icache st ip) (NDIRECT cfg)
         \<or> (\<exists>j < NINDIRECT cfg.
              get_le 4 (bread st (dev (icache st ip)) (addrs (icache st ip) (NDIRECT cfg))) (4 * j) \<noteq> 0
              \<and> a = get_le 4 (bread st (dev (icache st ip))
                         (addrs (icache st ip) (NDIRECT cfg))) (4 * j))))"
  using assms by (auto simp: file_blocks_def Let_def split: if_splits)

lemma indirect_not_direct:
  assumes "distinct (file_blocks cfg st ip)" and "addrs (icache st ip) (NDIRECT cfg) \<noteq> 0"
    and "k < NDIRECT cfg" and "addrs (icache st ip) k \<noteq> 0"
  shows "addrs (icache st ip) (NDIRECT cfg) \<noteq> addrs (icache st ip) k"
  using assms by (auto simp: file_blocks_def Let_def)

lemma data_block_bitmap:
  assumes "sb_size sb \<le> 2 ^ 32" and "data_block cfg sb a"
  shows "BBLOCK cfg a (sb_ninodes sb) = a div BPB cfg + sb_ninodes sb div IPB cfg + 3"
    and "BBLOCK cfg a (sb_ninodes sb) < data_start cfg sb"
proof -
  from assms(2) have a: "data_start cfg sb \<le> a" "a < sb_size sb" by (simp_all add: data_block_def)
  from a(2) have "a div BPB cfg \<le> sb_size sb div BPB cfg" by (intro div_le_mono) simp
  then have lt: "a div BPB cfg + sb_ninodes sb div IPB cfg + 3 < data_start cfg sb"
    by (simp add: data_start_def)
  with a assms(1) have "a div BPB cfg + sb_ninodes sb div IPB cfg + 3 < 2 ^ 32" by linarith
  then show "BBLOCK cfg a (sb_ninodes sb) = a div BPB cfg + sb_ninodes sb div IPB cfg + 3"
    by (simp add: BBLOCK_def)
  with lt show "BBLOCK cfg a (sb_ninodes sb) < data_start cfg sb" by simp
qed

lemma well_formed_sep:
  assumes wf: "well_formed cfg st ip" and a: "a \<in> set (file_blocks cfg st ip)"
  shows "a \<noteq> 1"
    and "BBLOCK cfg a (sb_ninodes (readsb cfg st (dev (icache st ip)))) \<noteq> 1"
    and "a \<noteq> IBLOCK cfg (inum (icache st ip))"
    and "BBLOCK cfg a (sb_ninodes (readsb cfg st (dev (icache st ip))))
         \<noteq> IBLOCK cfg (inum (icache st ip))"
    and "\<And>a'. a' \<in> set (file_blocks cfg st ip) \<Longrightarrow>
           a' \<noteq> BBLOCK cfg a (sb_ninodes (readsb cfg st (dev (icache st ip))))"
proof -
  let ?sb = "readsb cfg st (dev (icache st ip))"
  from wf have sz: "sb_size ?sb \<le> 2 ^ 32" and ino: "inum (icache st ip) < sb_ninodes ?sb"
    and db: "\<And>x. x \<in> set (file_blocks cfg st ip) \<Longrightarrow> data_block cfg ?sb x"
    by (simp_all add: well_formed_def Let_def)
  note bm = data_block_bitmap [OF sz db [OF a]]
  from db [OF a] have lo: "data_start cfg ?sb \<le> a" by (simp add: data_block_def)
  from ino have "inum (icache st ip) div IPB cfg \<le> sb_ninodes ?sb div IPB cfg"
    by (intro div_le_mono) simp
  then have ib: "IBLOCK cfg (inum (icache st ip)) < sb_ninodes ?sb div IPB cfg + 3"
    by (simp add: IBLOCK_def)
  from lo show "a \<noteq> 1" by (simp add: data_start_def)
  from bm(1) show "BBLOCK cfg a (sb_ninodes ?sb) \<noteq> 1" by simp
  from lo ib show "a \<noteq> IBLOCK cfg (inum (icache st ip))" by (simp add: data_start_def)
  from bm(1) ib show "BBLOCK cfg a (sb_ninodes ?sb) \<noteq> IBLOCK cfg (inum (icache st ip))" by simp
  show "a' \<noteq> BBLOCK cfg a (sb_ninodes ?sb)" if "a' \<in> set (file_blocks cfg st ip)" for a'
  proof -
    from db [OF that] have "data_start cfg ?sb \<le> a'" by (simp add: data_block_def)
    with bm(2) show ?thesis by simp
  qed
qed


lemma itrunc_frees:
  assumes ok: "config_ok cfg" and r: "itrunc cfg st ip = Inr st'"
    and wf: "well_formed cfg st ip"
  shows "\<forall>a \<in> set (file_blocks cfg st ip). freed cfg st' (dev (icache st ip)) a"
    and "readsb cfg st' (dev (icache st ip)) = readsb cfg st (dev (icache st ip))"
proof -
  let ?i = "icache st ip"
  let ?d = "dev ?i"
  let ?sb = "readsb cfg st ?d"
  let ?nin = "sb_ninodes ?sb"
  let ?ind = "addrs ?i (NDIRECT cfg)"
  let ?ib = "IBLOCK cfg (inum ?i)"
  define st0 where "st0 = st\<lparr>trace := trace st @ [Itrunc ip]\<rparr>"
  have i0: "icache st0 = icache st" and d0: "disk st0 = disk st" by (simp_all add: st0_def)
  have sb0: "readsb cfg st0 ?d = ?sb" by (simp add: readsb_def bread_def d0)
  note sep = well_formed_sep [OF wf]
  from wf have dist: "distinct (file_blocks cfg st ip)" by (simp add: well_formed_def Let_def)
  define mid where "mid = (\<lambda>s1.
       if addrs (icache s1 ip) (NDIRECT cfg) \<noteq> 0 then
         let d = dev (icache s1 ip); ind = addrs (icache s1 ip) (NDIRECT cfg) in
         case itrunc_indirect cfg s1 d (bread s1 d ind) 0 of
           Inl e \<Rightarrow> Inl e
         | Inr st2 \<Rightarrow>
             (case bfree cfg st2 d ind of
                Inl e \<Rightarrow> Inl e
              | Inr st3 \<Rightarrow> Inr (set_addr st3 ip (NDIRECT cfg) 0))
       else Inr s1)"
  have u: "itrunc cfg st ip =
           (case itrunc_direct cfg st0 ip 0 of
              Inl e \<Rightarrow> Inl e
            | Inr s1 \<Rightarrow>
                (case mid s1 of
                   Inl e \<Rightarrow> Inl e
                 | Inr st4 \<Rightarrow> iupdate cfg (upd_inode st4 ip (\<lambda>i. i\<lparr>size' := 0\<rparr>)) ip))"
    by (simp add: itrunc_def Let_def st0_def mid_def cong: sum.case_cong)
  from r u obtain s1 where d1: "itrunc_direct cfg st0 ip 0 = Inr s1"
    by (cases "itrunc_direct cfg st0 ip 0") simp_all
  from r u d1 obtain s4 where m: "mid s1 = Inr s4"
    by (cases "mid s1") simp_all
  from r u d1 m have up: "iupdate cfg (upd_inode s4 ip (\<lambda>i. i\<lparr>size' := 0\<rparr>)) ip = Inr st'"
    by simp
  have p1: "\<forall>j. 0 \<le> j \<and> j < NDIRECT cfg \<and> addrs (icache st0 ip) j \<noteq> 0 \<longrightarrow>
           addrs (icache st0 ip) j \<noteq> 1
           \<and> BBLOCK cfg (addrs (icache st0 ip) j)
                (sb_ninodes (readsb cfg st0 (dev (icache st0 ip)))) \<noteq> 1"
  proof (intro allI impI)
    fix j assume "0 \<le> j \<and> j < NDIRECT cfg \<and> addrs (icache st0 ip) j \<noteq> 0"
    then have "addrs ?i j \<in> set (file_blocks cfg st ip)" by (simp add: i0 direct_in)
    from sep(1,2) [OF this]
    show "addrs (icache st0 ip) j \<noteq> 1
           \<and> BBLOCK cfg (addrs (icache st0 ip) j)
                (sb_ninodes (readsb cfg st0 (dev (icache st0 ip)))) \<noteq> 1"
      by (simp add: i0 sb0)
  qed
  note f1 = itrunc_direct_frees [OF d1 p1, unfolded i0 sb0]
  from f1 have sh1: "shrinks cfg ?d st0 s1"
    and fr1: "\<forall>j. 0 \<le> j \<and> j < NDIRECT cfg \<and> addrs ?i j \<noteq> 0 \<longrightarrow> freed cfg s1 ?d (addrs ?i j)"
    and fm1: "\<forall>x. (\<forall>j. 0 \<le> j \<and> j < NDIRECT cfg \<and> addrs ?i j \<noteq> 0 \<longrightarrow>
                 x \<noteq> addrs ?i j \<and> x \<noteq> BBLOCK cfg (addrs ?i j) ?nin) \<longrightarrow>
            disk s1 (?d, x) = disk st0 (?d, x)"
    by blast+
  from sh1 have sb1: "readsb cfg s1 ?d = ?sb" by (simp add: shrinks_def sb0)
  from itrunc_direct_icache [OF d1]
  have ic1: "icache s1 = (icache st)(ip := ?i\<lparr>addrs :=
               (\<lambda>j. if 0 \<le> j \<and> j < NDIRECT cfg then 0 else addrs ?i j)\<rparr>)"
    by (simp only: i0)
  have a1: "addrs (icache s1 ip) (NDIRECT cfg) = ?ind" "dev (icache s1 ip) = ?d"
    "inum (icache s1 ip) = inum ?i"
    by (simp_all add: ic1)
  have fd: "freed cfg s1 ?d a"
    if "\<exists>k < NDIRECT cfg. addrs ?i k \<noteq> 0 \<and> a = addrs ?i k" for a
    using that fr1 by auto
  have res: "(\<forall>a \<in> set (file_blocks cfg st ip). freed cfg s4 ?d a)
             \<and> readsb cfg s4 ?d = ?sb \<and> dev (icache s4 ip) = ?d \<and> inum (icache s4 ip) = inum ?i"
  proof (cases "?ind \<noteq> 0")
    case False
    with m have s4: "s4 = s1" by (simp add: mid_def a1)
    have "freed cfg s1 ?d a" if "a \<in> set (file_blocks cfg st ip)" for a
      using file_blocks_cases [OF that] False fd by blast
    then show ?thesis by (simp add: s4 sb1 a1)
  next
    case True
    let ?a = "bread s1 ?d ?ind"
    from indirect_in [OF True] have indF: "?ind \<in> set (file_blocks cfg st ip)" .
    have "disk s1 (?d, ?ind) = disk st0 (?d, ?ind)"
    proof (rule fm1 [THEN spec, THEN mp], intro allI impI)
      fix j assume j: "0 \<le> j \<and> j < NDIRECT cfg \<and> addrs ?i j \<noteq> 0"
      then have jF: "addrs ?i j \<in> set (file_blocks cfg st ip)" by (simp add: direct_in)
      from indirect_not_direct [OF dist True] j have "?ind \<noteq> addrs ?i j" by simp
      with sep(5) [OF jF indF]
      show "?ind \<noteq> addrs ?i j \<and> ?ind \<noteq> BBLOCK cfg (addrs ?i j) ?nin" by simp
    qed
    then have rd: "?a = bread st ?d ?ind" by (simp add: bread_def d0)
    from m True obtain s2 where i2: "itrunc_indirect cfg s1 ?d ?a 0 = Inr s2"
      by (cases "itrunc_indirect cfg s1 ?d ?a 0") (simp_all add: mid_def a1 Let_def)
    from m True i2 obtain s3 where b3: "bfree cfg s2 ?d ?ind = Inr s3"
      by (cases "bfree cfg s2 ?d ?ind") (simp_all add: mid_def a1 Let_def)
    from m True i2 b3 have s4: "s4 = set_addr s3 ip (NDIRECT cfg) 0"
      by (simp add: mid_def a1 Let_def)
    have p2: "\<forall>i. 0 \<le> i \<and> i < NINDIRECT cfg \<and> get_le 4 ?a (4 * i) \<noteq> 0 \<longrightarrow>
           get_le 4 ?a (4 * i) \<noteq> 1
           \<and> BBLOCK cfg (get_le 4 ?a (4 * i)) (sb_ninodes (readsb cfg s1 ?d)) \<noteq> 1"
    proof (intro allI impI)
      fix i assume "0 \<le> i \<and> i < NINDIRECT cfg \<and> get_le 4 ?a (4 * i) \<noteq> 0"
      then have "get_le 4 (bread st ?d ?ind) (4 * i) \<in> set (file_blocks cfg st ip)"
        using True by (simp add: rd entry_in)
      from sep(1,2) [OF this]
      show "get_le 4 ?a (4 * i) \<noteq> 1
           \<and> BBLOCK cfg (get_le 4 ?a (4 * i)) (sb_ninodes (readsb cfg s1 ?d)) \<noteq> 1"
        by (simp add: rd sb1)
    qed
    note f2 = itrunc_indirect_frees [OF i2 p2]
    from f2 have sh2: "shrinks cfg ?d s1 s2"
      and fr2: "\<forall>i. 0 \<le> i \<and> i < NINDIRECT cfg \<and> get_le 4 ?a (4 * i) \<noteq> 0 \<longrightarrow>
                  freed cfg s2 ?d (get_le 4 ?a (4 * i))"
      by blast+
    from sh2 have sb2: "readsb cfg s2 ?d = ?sb" by (simp add: shrinks_def sb1)
    from sep(1,2) [OF indF] have ok3: "?ind \<noteq> 1" "BBLOCK cfg ?ind (sb_ninodes (readsb cfg s2 ?d)) \<noteq> 1"
      by (simp_all add: sb2)
    note f3 = bfree_shrinks [OF b3 ok3]
    from f3(1) have sb3: "readsb cfg s3 ?d = ?sb" by (simp add: shrinks_def sb2)
    have d4: "disk s4 = disk s3" by (simp add: s4 set_addr_def)
    have "freed cfg s3 ?d a" if "a \<in> set (file_blocks cfg st ip)" for a
    proof -
      from file_blocks_cases [OF that]
      consider (dir) "\<exists>k < NDIRECT cfg. addrs ?i k \<noteq> 0 \<and> a = addrs ?i k"
        | (ind) "a = ?ind"
        | (ent) "\<exists>j < NINDIRECT cfg. get_le 4 (bread st ?d ?ind) (4 * j) \<noteq> 0
              \<and> a = get_le 4 (bread st ?d ?ind) (4 * j)"
        by blast
      then show ?thesis
      proof cases
        case dir
        from fd [OF dir] have "freed cfg s2 ?d a" using sh2 by (simp add: freed_shrinks)
        with f3(1) show ?thesis by (simp add: freed_shrinks)
      next
        case ind
        with f3(2) show ?thesis by simp
      next
        case ent
        with fr2 have "freed cfg s2 ?d a" by (auto simp: rd)
        with f3(1) show ?thesis by (simp add: freed_shrinks)
      qed
    qed
    then have "\<forall>a \<in> set (file_blocks cfg st ip). freed cfg s4 ?d a"
      by (simp add: freed_disk [OF d4])
    moreover have "readsb cfg s4 ?d = ?sb" using sb3 by (simp add: readsb_def bread_def d4)
    moreover have "icache s4 ip = (icache s1 ip)\<lparr>addrs := (addrs (icache s1 ip))(NDIRECT cfg := 0)\<rparr>"
      by (simp add: s4 set_addr_def bfree_icache [OF b3] itrunc_indirect_icache [OF i2])
    ultimately show ?thesis by (simp add: a1)
  qed
  let ?s5 = "upd_inode s4 ip (\<lambda>i. i\<lparr>size' := 0\<rparr>)"
  have d5: "disk ?s5 = disk s4" by (simp add: upd_inode_def)
  from res have dv5: "dev (icache ?s5 ip) = ?d" and ib5: "IBLOCK cfg (inum (icache ?s5 ip)) = ?ib"
    by (simp_all add: upd_inode_def)
  from res have sb5: "readsb cfg ?s5 ?d = ?sb" by (simp add: readsb_def bread_def d5)
  have ib1: "?ib \<noteq> 1" by (simp add: IBLOCK_def)
  show "\<forall>a \<in> set (file_blocks cfg st ip). freed cfg st' ?d a"
  proof
    fix a assume a: "a \<in> set (file_blocks cfg st ip)"
    with res have "freed cfg ?s5 ?d a" by (simp add: freed_disk [OF d5])
    with sep(3,4) [OF a] show "freed cfg st' ?d a"
      by (intro iupdate_keeps_freed(1) [OF up dv5 ib5 ib1]) (simp_all add: sb5)
  qed
  have "disk st' (?d, 1) = disk ?s5 (?d, 1)"
    using ib1 by (intro iupdate_disk_other [OF up]) (simp add: dv5 ib5)
  with sb5 show "readsb cfg st' ?d = ?sb" by (simp add: readsb_def bread_def)
qed


lemma file_blocks_cong:
  assumes "disk s2 = disk s1" and "dev (icache s2 ip) = dev (icache s1 ip)"
    and "addrs (icache s2 ip) = addrs (icache s1 ip)"
  shows "file_blocks cfg s2 ip = file_blocks cfg s1 ip"
  using assms by (simp add: file_blocks_def bread_def Let_def cong: if_cong)

lemma well_formed_cong:
  assumes "disk s2 = disk s1" and "dev (icache s2 ip) = dev (icache s1 ip)"
    and "inum (icache s2 ip) = inum (icache s1 ip)"
    and "addrs (icache s2 ip) = addrs (icache s1 ip)"
  shows "well_formed cfg s2 ip = well_formed cfg s1 ip"
  using assms file_blocks_cong [OF assms(1,2,4), of cfg]
  by (simp add: well_formed_def readsb_def bread_def Let_def)

text \<open>
  Claim C1. In every case but one \<^verbatim>\<open>iput\<close> only decrements the reference count. The
  exception is the release of the last reference (\<open>ref = 1\<close>) of a valid inode whose link
  count is 0. If that inode is busy, \<^verbatim>\<open>iput\<close> panics (its caller has to pass an unlocked
  inode). Otherwise \<^verbatim>\<open>iput\<close> either stops in \<^verbatim>\<open>bfree\<close> on a block that is already free,
  or returns after exactly these steps, in this order: it sets the busy flag, calls
  \<^verbatim>\<open>itrunc\<close> once (which persists the truncated inode, still with its type), calls
  \<^verbatim>\<open>iupdate\<close> once more, now writing type 0, clears the flags, calls \<^verbatim>\<open>wakeup\<close>, and last
  of all sets the reference count to 0. In the state it returns, every block of the
  file is freed (its bit in the bitmap is clear and its content is zero) provided the
  file system was well formed; the on-disk inode has type 0, size 0 and no block
  address; the cached copy has type 0, size 0, no block address and no flag, and its
  reference count is 0; no other slot of the cache has changed.
\<close>

theorem iput_releases:
  assumes "config_ok cfg"
  shows "if ref (icache st ip) = 1 \<and> flags (icache st ip) AND I_VALID cfg \<noteq> 0
            \<and> nlink (icache st ip) = 0
         then (if flags (icache st ip) AND I_BUSY cfg \<noteq> 0
               then iput cfg st ip = Inl (Panic ''iput busy'')
               else (case iput cfg st ip of
                 Inl e \<Rightarrow> e = Panic ''freeing free block''
               | Inr st' \<Rightarrow>
                   trace st' = trace st @
                     [Flags ip (flags (icache st ip) OR I_BUSY cfg), Itrunc ip,
                      Iupdate ip (type (icache st ip)), Iupdate ip 0, Flags ip 0,
                      Wakeup ip, Ref ip 0]
                 \<and> (well_formed cfg st ip \<longrightarrow>
                      (\<forall>a \<in> set (file_blocks cfg st ip). freed cfg st' (dev (icache st ip)) a))
                 \<and> disk_type cfg st' (dev (icache st ip)) (inum (icache st ip)) = 0
                 \<and> disk_size cfg st' (dev (icache st ip)) (inum (icache st ip)) = 0
                 \<and> (\<forall>k \<le> NDIRECT cfg.
                       disk_addr cfg st' (dev (icache st ip)) (inum (icache st ip)) k = 0)
                 \<and> ref (icache st' ip) = 0 \<and> flags (icache st' ip) = 0
                 \<and> type (icache st' ip) = 0 \<and> size' (icache st' ip) = 0
                 \<and> (\<forall>k \<le> NDIRECT cfg. addrs (icache st' ip) k = 0)
                 \<and> (\<forall>k. k \<noteq> ip \<longrightarrow> icache st' k = icache st k)))
         else iput cfg st ip = Inr (set_ref st ip (ref (icache st ip) - 1))"
proof (cases "ref (icache st ip) = 1 \<and> flags (icache st ip) AND I_VALID cfg \<noteq> 0
            \<and> nlink (icache st ip) = 0")
  case False
  then show ?thesis by (simp only: iput_def if_False)
next
  case True
  show ?thesis
  proof (cases "flags (icache st ip) AND I_BUSY cfg \<noteq> 0")
    case busy: True
    with True show ?thesis by (simp add: iput_def)
  next
    case False
    let ?d = "dev (icache st ip)"
    let ?w = "flags (icache st ip) OR I_BUSY cfg"
    let ?stb = "set_flags st ip ?w"
    from assms have ipb: "0 < IPB cfg" by (simp add: config_ok_def)
    have u: "iput cfg st ip =
           (case itrunc cfg ?stb ip of
              Inl e \<Rightarrow> Inl e
            | Inr st1 \<Rightarrow>
               (case iupdate cfg (upd_inode st1 ip (\<lambda>i. i\<lparr>type := 0\<rparr>)) ip of
                  Inl e \<Rightarrow> Inl e
                | Inr st2 \<Rightarrow>
                    Inr (set_ref (wakeup (set_flags st2 ip 0) ip) ip
                           (ref (icache (wakeup (set_flags st2 ip 0) ip) ip) - 1))))"
      using True False by (simp add: iput_def Let_def cong: sum.case_cong)
    have fb: "dev (icache ?stb ip) = ?d" "inum (icache ?stb ip) = inum (icache st ip)"
      "type (icache ?stb ip) = type (icache st ip)" "trace ?stb = trace st @ [Flags ip ?w]"
      "disk ?stb = disk st" "addrs (icache ?stb ip) = addrs (icache st ip)"
      by (simp_all add: set_flags_def upd_inode_def)
    have fbl: "file_blocks cfg ?stb ip = file_blocks cfg st ip"
      by (rule file_blocks_cong) (simp_all add: fb)
    have wfb: "well_formed cfg ?stb ip = well_formed cfg st ip"
      by (rule well_formed_cong) (simp_all add: fb)
    have "case iput cfg st ip of
                 Inl e \<Rightarrow> e = Panic ''freeing free block''
               | Inr st' \<Rightarrow>
                   trace st' = trace st @
                     [Flags ip ?w, Itrunc ip,
                      Iupdate ip (type (icache st ip)), Iupdate ip 0, Flags ip 0,
                      Wakeup ip, Ref ip 0]
                 \<and> (well_formed cfg st ip \<longrightarrow>
                      (\<forall>a \<in> set (file_blocks cfg st ip). freed cfg st' ?d a))
                 \<and> disk_type cfg st' ?d (inum (icache st ip)) = 0
                 \<and> disk_size cfg st' ?d (inum (icache st ip)) = 0
                 \<and> (\<forall>k \<le> NDIRECT cfg. disk_addr cfg st' ?d (inum (icache st ip)) k = 0)
                 \<and> ref (icache st' ip) = 0 \<and> flags (icache st' ip) = 0
                 \<and> type (icache st' ip) = 0 \<and> size' (icache st' ip) = 0
                 \<and> (\<forall>k \<le> NDIRECT cfg. addrs (icache st' ip) k = 0)
                 \<and> (\<forall>k. k \<noteq> ip \<longrightarrow> icache st' k = icache st k)"
    proof (cases "itrunc cfg ?stb ip")
      case (Inl e)
      with itrunc_spec [OF assms, of ?stb ip] u show ?thesis by simp
    next
      case (Inr st1)
      with itrunc_spec [OF assms, of ?stb ip]
      have t1: "trace st1 = trace st @ [Flags ip ?w, Itrunc ip, Iupdate ip (type (icache st ip))]"
        and i1: "icache st1 = (icache ?stb)(ip := truncated cfg (icache ?stb ip))"
        by (simp_all add: fb)
      let ?st1' = "upd_inode st1 ip (\<lambda>i. i\<lparr>type := 0\<rparr>)"
      have f1: "dev (icache st1 ip) = ?d" "inum (icache st1 ip) = inum (icache st ip)"
        "size' (icache st1 ip) = 0" "ref (icache st1 ip) = ref (icache st ip)"
        "\<And>k. k \<le> NDIRECT cfg \<Longrightarrow> addrs (icache st1 ip) k = 0"
        "\<And>k. k \<noteq> ip \<Longrightarrow> icache st1 k = icache st k"
        by (simp_all add: set_flags_def upd_inode_def i1 truncated_def)
      from iupdate_spec [OF ipb, of ?st1' ip] obtain st2
        where r: "iupdate cfg ?st1' ip = Inr st2" and ic: "icache st2 = icache ?st1'"
          and tr: "trace st2 = trace ?st1' @ [Iupdate ip (type (icache ?st1' ip))]"
          and dt: "disk_type cfg st2 (dev (icache ?st1' ip)) (inum (icache ?st1' ip)) = type (icache ?st1' ip)"
          and ds: "disk_size cfg st2 (dev (icache ?st1' ip)) (inum (icache ?st1' ip))
                   = size' (icache ?st1' ip) mod 2 ^ 32"
          and da: "\<forall>k \<le> NDIRECT cfg. disk_addr cfg st2 (dev (icache ?st1' ip)) (inum (icache ?st1' ip)) k
                   = addrs (icache ?st1' ip) k mod 2 ^ 32"
        by blast
      let ?st3 = "wakeup (set_flags st2 ip 0) ip"
      let ?st' = "set_ref ?st3 ip (ref (icache ?st3 ip) - 1)"
      have d: "disk ?st' = disk st2" by (simp add: set_ref_def set_flags_def upd_inode_def wakeup_def)
      have res: "iput cfg st ip = Inr ?st'" using u Inr r by simp
      have r3: "ref (icache ?st3 ip) = 1"
        using True by (simp add: set_flags_def upd_inode_def wakeup_def ic f1)
      have "trace ?st' = trace st @ [Flags ip ?w, Itrunc ip, Iupdate ip (type (icache st ip)),
                Iupdate ip 0, Flags ip 0, Wakeup ip, Ref ip 0]"
        by (simp add: r3) (simp add: set_ref_def set_flags_def upd_inode_def wakeup_def tr t1)
      moreover have "well_formed cfg st ip \<longrightarrow>
                      (\<forall>a \<in> set (file_blocks cfg st ip). freed cfg ?st' ?d a)"
      proof (intro impI ballI)
        fix a assume wf: "well_formed cfg st ip" and a: "a \<in> set (file_blocks cfg st ip)"
        from wf have wf': "well_formed cfg ?stb ip" by (simp only: wfb)
        note fz = itrunc_frees [OF assms Inr wf', unfolded fbl fb(1)]
        from fz(1) a have fa: "freed cfg st1 ?d a" by blast
        from fz(2) have sb1: "readsb cfg st1 ?d = readsb cfg st ?d"
          by (simp add: readsb_def bread_def fb)
        have d1: "disk ?st1' = disk st1" by (simp add: upd_inode_def)
        from fa have fa': "freed cfg ?st1' ?d a" by (simp add: freed_disk [OF d1])
        have sb1': "readsb cfg ?st1' ?d = readsb cfg st ?d"
          using sb1 by (simp add: readsb_def bread_def d1)
        have dv: "dev (icache ?st1' ip) = ?d"
          and ib: "IBLOCK cfg (inum (icache ?st1' ip)) = IBLOCK cfg (inum (icache st ip))"
          by (simp_all add: upd_inode_def f1)
        have ib1: "IBLOCK cfg (inum (icache st ip)) \<noteq> 1" by (simp add: IBLOCK_def)
        note sep = well_formed_sep [OF wf a]
        from fa' sep(3,4) have "freed cfg st2 ?d a"
          by (intro iupdate_keeps_freed(1) [OF r dv ib ib1]) (simp_all add: sb1')
        then show "freed cfg ?st' ?d a" by (simp add: freed_disk [OF d])
      qed
      moreover from dt have "disk_type cfg ?st' ?d (inum (icache st ip)) = 0"
        by (simp add: disk_type_def bread_def d upd_inode_def f1)
      moreover from ds have "disk_size cfg ?st' ?d (inum (icache st ip)) = 0"
        by (simp add: disk_size_def bread_def d upd_inode_def f1)
      moreover from da have "\<forall>k \<le> NDIRECT cfg. disk_addr cfg ?st' ?d (inum (icache st ip)) k = 0"
        by (simp add: disk_addr_def bread_def d upd_inode_def f1)
      moreover have "ref (icache ?st' ip) = 0" "flags (icache ?st' ip) = 0"
        "type (icache ?st' ip) = 0" "size' (icache ?st' ip) = 0"
        by (simp_all add: r3) (simp_all add: set_ref_def set_flags_def upd_inode_def wakeup_def ic f1)
      moreover have "\<forall>k \<le> NDIRECT cfg. addrs (icache ?st' ip) k = 0"
        by (simp add: set_ref_def set_flags_def upd_inode_def wakeup_def ic f1)
      moreover have "\<forall>k. k \<noteq> ip \<longrightarrow> icache ?st' k = icache st k"
        by (simp add: set_ref_def set_flags_def upd_inode_def wakeup_def ic f1)
      ultimately show ?thesis unfolding res by simp
    qed
    with True False show ?thesis by simp
  qed
qed


text \<open>
  A third example state, on the device of the second one: slot 0 of the cache holds an
  unlinked file (inode 5 of device 1) with one direct block (block 100) and an indirect
  block (block 101) whose only entry is block 102; blocks 0 to 102 are marked in use.
\<close>

definition big_inode :: inode where
  "big_inode = \<lparr>dev = 1, inum = 5, ref = 1, flags = 2, type = 2, major = 0, minor = 0,
              nlink = 0, size' = 6656,
              addrs = (\<lambda>k. if k = 0 then 100 else if k = 12 then 101 else 0)\<rparr>"

definition disk2 :: "nat \<times> nat \<Rightarrow> block" where
  "disk2 = (\<lambda>b k. if b = (1, 1) then (if k = 1 then 4 else if k = 8 then 200 else 0)
                  else if b = (1, 28) then (if k < 12 then 255 else if k = 12 then 127 else 0)
                  else if b = (1, 100) then of_nat k
                  else if b = (1, 101) then (if k = 0 then 102 else 0)
                  else if b = (1, 102) then 7 else 0)"

definition st_big :: fs_state where
  "st_big = \<lparr>icache = (\<lambda>k. if k = 0 then big_inode else inode0), disk = disk2, trace = []\<rparr>"

lemma big_blocks: "file_blocks xv6 st_big 0 = [100, 102, 101]"
  by (simp add: file_blocks_def Let_def xv6_def st_big_def big_inode_def disk2_def bread_def
      get_le_4 upt_rec [of _ "numeral n" for n] upt_rec [of _ "Suc n" for n])


lemma big_well_formed: "well_formed xv6 st_big 0"
  by (simp add: well_formed_def big_blocks Let_def data_block_def data_start_def)
     (simp add: readsb_def sb_xv6_def xv6_def st_big_def big_inode_def disk2_def bread_def
        get_le_4)

lemma ex3: "\<exists>st'. iput xv6 st_big 0 = Inr st'"
  by (simp add: iput_def itrunc_def itrunc_direct.simps itrunc_indirect.simps
      bfree_def bzero_def readsb_def
      iupdate_def upd_inode_def wakeup_def set_addr_def set_flags_def set_ref_def
      BBLOCK_def IBLOCK_def sb_xv6_def
      xv6_def st_big_def big_inode_def inode0_def disk2_def Let_def bread_def bwrite_def
      get_le_4)

theorem iput_releases_witness:
  "config_ok xv6 \<and> ref (icache st_big 0) = 1 \<and> flags (icache st_big 0) AND I_VALID xv6 \<noteq> 0
   \<and> nlink (icache st_big 0) = 0 \<and> flags (icache st_big 0) AND I_BUSY xv6 = 0
   \<and> well_formed xv6 st_big 0 \<and> file_blocks xv6 st_big 0 = [100, 102, 101]
   \<and> (\<exists>st'. iput xv6 st_big 0 = Inr st'
         \<and> trace st' = [Flags 0 3, Itrunc 0, Iupdate 0 2, Iupdate 0 0, Flags 0 0, Wakeup 0,
                         Ref 0 0]
         \<and> freed xv6 st' 1 100 \<and> freed xv6 st' 1 102 \<and> freed xv6 st' 1 101
         \<and> disk_type xv6 st' 1 5 = 0 \<and> ref (icache st' 0) = 0 \<and> flags (icache st' 0) = 0)
   \<and> iput xv6 st_file 0 = Inr (set_ref st_file 0 0)
   \<and> iput xv6 (upd_inode st_big 0 (\<lambda>i. i\<lparr>flags := 3\<rparr>)) 0 = Inl (Panic ''iput busy'')"
proof -
  have h: "ref (icache st_big 0) = 1"
    "flags (icache st_big 0) AND I_VALID xv6 \<noteq> 0" "nlink (icache st_big 0) = 0"
    "flags (icache st_big 0) AND I_BUSY xv6 = 0"
    by (simp_all add: st_big_def big_inode_def xv6_def)
  have g: "nlink (icache st_file 0) \<noteq> 0" "ref (icache st_file 0) = 1"
    by (simp_all add: st_file_def file_inode_def)
  let ?b = "upd_inode st_big 0 (\<lambda>i. i\<lparr>flags := 3\<rparr>)"
  have k: "ref (icache ?b 0) = 1"
    "flags (icache ?b 0) AND I_VALID xv6 \<noteq> 0" "nlink (icache ?b 0) = 0"
    "flags (icache ?b 0) AND I_BUSY xv6 \<noteq> 0"
    by (simp_all add: upd_inode_def st_big_def big_inode_def xv6_def)
  obtain st' where e: "iput xv6 st_big 0 = Inr st'" using ex3 ..
  from iput_releases [OF xv6_ok, of st_big 0] h e big_well_formed
  have "trace st' = [Flags 0 3, Itrunc 0, Iupdate 0 2, Iupdate 0 0, Flags 0 0, Wakeup 0, Ref 0 0]
         \<and> freed xv6 st' 1 100 \<and> freed xv6 st' 1 102 \<and> freed xv6 st' 1 101
         \<and> disk_type xv6 st' 1 5 = 0 \<and> ref (icache st' 0) = 0 \<and> flags (icache st' 0) = 0"
    by (simp add: big_blocks) (simp add: st_big_def big_inode_def xv6_def)
  moreover from iput_releases [OF xv6_ok, of st_file 0] g
  have "iput xv6 st_file 0 = Inr (set_ref st_file 0 0)"
    by simp
  moreover from iput_releases [OF xv6_ok, of ?b 0] k
  have "iput xv6 ?b 0 = Inl (Panic ''iput busy'')" by simp
  ultimately show ?thesis using h e xv6_ok big_well_formed big_blocks by blast
qed

subsection \<open>Path resolution through an inode that is not a directory\<close>

















end
